theory Spec2Isabelle
  imports Main "HOL-Library.Multiset"
begin

section \<open>The Markowitz queue of the merge step (filter/markowitz.c)\<close>

text \<open>
  The development embeds \<^verbatim>\<open>src/filter/markowitz.c\<close>: the three cost policies
  (\<^verbatim>\<open>Cavallar\<close>, \<^verbatim>\<open>pureMkz\<close>, \<^verbatim>\<open>lightColAndMkz\<close>), the clamp in \<^verbatim>\<open>MkzCount\<close>, and the
  indexed binary heap kept in the two flat arrays \<^verbatim>\<open>MKZQ\<close> and \<^verbatim>\<open>MKZA\<close>.

  Integers. The typedef of \<^verbatim>\<open>index_t\<close> is not part of the sources at hand, so slot
  numbers, column numbers, row lengths and stored costs are natural numbers. The cost
  policies return a C \<^verbatim>\<open>int\<close>, which \<^verbatim>\<open>MkzCount\<close> keeps in an \<^verbatim>\<open>int32_t\<close>: the value that
  \<^verbatim>\<open>pureMkz\<close> computes is reduced to 32 bits (\<open>to_int32\<close>).
\<close>

subsection \<open>The matrix\<close>

datatype mkztype_t = MKZTYPE_CAVALLAR | MKZTYPE_PURE | MKZTYPE_LIGHT

text \<open>
  \<^verbatim>\<open>filter_matrix_t\<close>, with the fields this file reads. \<open>wt ! j\<close> is the weight of column
  \<open>j\<close>; \<open>R ! j\<close> is the array \<^verbatim>\<open>mat->R[j]\<close>, whose entry 0 is the number of rows listed
  and whose entries 1, 2, ... are the rows; \<open>MKZQ\<close> and \<open>MKZA\<close> are the two queue arrays.
\<close>

text \<open>
  Modelled from the spec: the macro \<^verbatim>\<open>matLengthRow\<close> and the collaborators
  \<^verbatim>\<open>weightSum\<close> and \<^verbatim>\<open>minCostUsingMST\<close> (sparse.h, mst.h, merge_replay_matrix.h) are
  missing. The spec gives a length \<open>rowLength[row]\<close> to every row, and an integer answer
  of the oracle for a column and its rows; their values on the current matrix are the
  fields \<open>matLengthRow\<close>, \<open>weightSum\<close> and \<open>minCostUsingMST\<close>. The constants
  \<^verbatim>\<open>MKZTYPE_*\<close> are missing as well; they are the constructors of \<open>mkztype_t\<close>.
\<close>

record filter_matrix =
  wt :: "int list"
  R :: "nat list list"
  matLengthRow :: "nat \<Rightarrow> nat"
  wmstmax :: int
  mkztype :: mkztype_t
  weightSum :: "nat \<Rightarrow> nat \<Rightarrow> nat \<Rightarrow> int"
  minCostUsingMST :: "int \<Rightarrow> nat list \<Rightarrow> nat \<Rightarrow> int"
  MKZQ :: "nat list"
  MKZA :: "nat list"

subsection \<open>The cost policies\<close>

definition Cavallar :: "filter_matrix \<Rightarrow> nat \<Rightarrow> int" where
  "Cavallar mat j = wt mat ! j"

text \<open>
  The loop of \<^verbatim>\<open>pureMkz\<close>: \<^verbatim>\<open>for (k = 2; k <= mat->R[j][0]; k++)\<close>, started at \<open>k\<close> with
  the running minimum \<open>w0\<close>. \<open>Rj\<close> is the array \<^verbatim>\<open>mat->R[j]\<close> and \<open>len\<close> is
  \<^verbatim>\<open>matLengthRow\<close>.
\<close>

function pureMkz_loop :: "(nat \<Rightarrow> nat) \<Rightarrow> nat list \<Rightarrow> nat \<Rightarrow> nat \<Rightarrow> nat" where
  "pureMkz_loop len Rj k w0 =
     (if k \<le> Rj ! 0
      then pureMkz_loop len Rj (k + 1) (if len (Rj ! k) < w0 then len (Rj ! k) else w0)
      else w0)"
  by pat_completeness auto
termination
  by (relation "measure (\<lambda>(len, Rj, k, w0). Suc (Rj ! 0) - k)") auto

declare pureMkz_loop.simps [simp del]

text \<open>
  The value that a 32-bit \<^verbatim>\<open>int\<close> holds after an integer is converted to it: the integer
  reduced modulo \<open>2 ^ 32\<close> into the range from \<open>- 2 ^ 31\<close> to \<open>2 ^ 31 - 1\<close>.
\<close>

definition to_int32 :: "int \<Rightarrow> int" where
  "to_int32 x = (x + 2147483648) mod 4294967296 - 2147483648"

text \<open>
  In \<^verbatim>\<open>pureMkz\<close> the variable \<^verbatim>\<open>w0\<close> is unsigned and \<^verbatim>\<open>w\<close> is an \<^verbatim>\<open>int\<close>. The expression
  \<^verbatim>\<open>(w0 - 2) * (w - 2) - 2\<close> is computed in the unsigned arithmetic of \<^verbatim>\<open>index_t\<close>, modulo a
  power of two that is at least \<open>2 ^ 32\<close>, and the result is converted to the \<^verbatim>\<open>int\<close> that
  is returned. Whatever the width of \<^verbatim>\<open>index_t\<close>, the value returned is the integer value
  of the expression reduced to 32 bits.
\<close>

definition pureMkz :: "filter_matrix \<Rightarrow> nat \<Rightarrow> int" where
  "pureMkz mat j =
     (let w = wt mat ! j in
      if w \<le> 1 then - 4
      else if w = 2 then - 2
      else
        (let i = R mat ! j ! 1;
             w0 = matLengthRow mat i;
             w0 = pureMkz_loop (matLengthRow mat) (R mat ! j) 2 w0
         in to_int32 ((int w0 - 2) * (w - 2) - 2)))"

text \<open>\<^verbatim>\<open>ind = mat->R[j] + 1\<close> is the array of the rows, without the leading count.\<close>

definition lightColAndMkz :: "filter_matrix \<Rightarrow> nat \<Rightarrow> int" where
  "lightColAndMkz mat j =
     (let wj = wt mat ! j in
      if wj \<le> 1 then - 4
      else if wj \<le> wmstmax mat then
        (let ind = tl (R mat ! j) in
         if wj = 2
         then weightSum mat (ind ! 0) (ind ! 1) j
              - int (matLengthRow mat (ind ! 0)) - int (matLengthRow mat (ind ! 1))
         else minCostUsingMST mat wj ind j)
      else pureMkz mat j)"

text \<open>
  \<^verbatim>\<open>MkzCount\<close>: the \<^verbatim>\<open>default\<close> label of the switch shares the branch of
  \<^verbatim>\<open>MKZTYPE_CAVALLAR\<close>; a negative cost is replaced by 0.
\<close>

definition MkzCount :: "filter_matrix \<Rightarrow> nat \<Rightarrow> int" where
  "MkzCount mat j =
     (let cost = (case mkztype mat of
                    MKZTYPE_LIGHT \<Rightarrow> lightColAndMkz mat j
                  | MKZTYPE_PURE \<Rightarrow> pureMkz mat j
                  | MKZTYPE_CAVALLAR \<Rightarrow> Cavallar mat j)
      in if cost < 0 then 0 else cost)"

text \<open>
  The precondition of the cost estimator for column \<open>j\<close>: the weight equals the number
  of rows listed, and \<^verbatim>\<open>mat->R[j]\<close> holds the count followed by that many rows.
\<close>

definition col_in_sync :: "filter_matrix \<Rightarrow> nat \<Rightarrow> bool" where
  "col_in_sync mat j \<longleftrightarrow>
     j < length (wt mat) \<and> j < length (R mat) \<and>
     wt mat ! j = int (R mat ! j ! 0) \<and> length (R mat ! j) = Suc (R mat ! j ! 0)"

text \<open>The rows that reference column \<open>j\<close>, and the least of their lengths.\<close>

definition rows_of :: "filter_matrix \<Rightarrow> nat \<Rightarrow> nat list" where
  "rows_of mat j = tl (R mat ! j)"

definition min_row_length :: "filter_matrix \<Rightarrow> nat \<Rightarrow> nat" where
  "min_row_length mat j = Min (set (map (matLengthRow mat) (rows_of mat j)))"

text \<open>
  The estimate of the spec for a column of weight \<open>w\<close> above 2, as an integer:
  \<open>(w0 - 2) * (w - 2) - 2\<close> with \<open>w0\<close> the least length of a row of the column.
\<close>

definition fill_in_estimate :: "filter_matrix \<Rightarrow> nat \<Rightarrow> int" where
  "fill_in_estimate mat j = (int (min_row_length mat j) - 2) * (wt mat ! j - 2) - 2"

subsection \<open>The queue arrays\<close>

text \<open>
  \<open>Q ! 0\<close> is the number of items; slot \<open>i \<ge> 1\<close> of the heap is the pair
  \<open>Q ! (2 * i)\<close> (the column) and \<open>Q ! (2 * i + 1)\<close> (its cost); \<open>A ! j\<close> is the slot
  of column \<open>j\<close>. \<^verbatim>\<open>MkzGet\<close> and \<^verbatim>\<open>MkzSet\<close> are the two macros, \<^verbatim>\<open>(i << 1) + r\<close> being
  \<open>2 * i + r\<close>.
\<close>

definition MkzGet :: "nat list \<Rightarrow> nat \<Rightarrow> nat \<Rightarrow> nat" where
  "MkzGet Q i r = Q ! (2 * i + r)"

definition MkzSet :: "nat list \<Rightarrow> nat \<Rightarrow> nat \<Rightarrow> nat \<Rightarrow> nat list" where
  "MkzSet Q i r val = Q[2 * i + r := val]"

text \<open>
  Modelled from the spec: the constant \<^verbatim>\<open>MKZ_INF\<close> is not defined in the sources at hand.
  The spec calls it the "infinite" sentinel, distinct from and larger than every legal
  cost; it is taken to be the largest 32-bit unsigned value.
\<close>

definition MKZ_INF :: nat where
  "MKZ_INF = 4294967295"

definition MkzIsAlive :: "nat list \<Rightarrow> nat \<Rightarrow> bool" where
  "MkzIsAlive A dj \<longleftrightarrow> A ! dj \<noteq> MKZ_INF"

text \<open>\<^verbatim>\<open>(Q, A)[k1] <- (Q, A)[k2]\<close>, statement by statement.\<close>

definition MkzAssign :: "nat list \<Rightarrow> nat list \<Rightarrow> nat \<Rightarrow> nat \<Rightarrow> nat list \<times> nat list" where
  "MkzAssign Q A k1 k2 =
     (let dj = MkzGet Q k2 0;
          Q1 = MkzSet Q k1 0 dj;
          Q2 = MkzSet Q1 k1 1 (MkzGet Q1 k2 1);
          A1 = A[dj := k1]
      in (Q2, A1))"

text \<open>
  The loop of \<^verbatim>\<open>MkzUpQueue\<close>; it returns the arrays and the final \<open>k\<close>. It ends because
  \<open>k\<close> is halved while it exceeds 1.
\<close>

function MkzUpQueue_loop ::
  "nat list \<Rightarrow> nat list \<Rightarrow> nat \<Rightarrow> nat \<Rightarrow> nat list \<times> nat list \<times> nat" where
  "MkzUpQueue_loop Q A k cnt =
     (if k > 1 \<and> MkzGet Q (k div 2) 1 \<ge> cnt
      then MkzUpQueue_loop (fst (MkzAssign Q A k (k div 2))) (snd (MkzAssign Q A k (k div 2)))
             (k div 2) cnt
      else (Q, A, k))"
  by pat_completeness auto
termination
  by (relation "measure (\<lambda>(Q, A, k, cnt). k)") auto

declare MkzUpQueue_loop.simps [simp del]

definition MkzUpQueue :: "nat list \<Rightarrow> nat list \<Rightarrow> nat \<Rightarrow> nat list \<times> nat list" where
  "MkzUpQueue Q A k =
     (let dj = MkzGet Q k 0; cnt = MkzGet Q k 1 in
      case MkzUpQueue_loop Q A k cnt of
        (Q', A', k') \<Rightarrow> (MkzSet (MkzSet Q' k' 0 dj) k' 1 cnt, A'[dj := k']))"

text \<open>
  The loop of \<^verbatim>\<open>MkzDownQueue\<close>; \<open>cnt\<close> is the variable \<^verbatim>\<open>count\<close> of the source. Nothing
  in the function bounds the number of rounds for an arbitrary \<open>k\<close> and \<open>cnt\<close> (with
  \<open>k = 0\<close> the son \<open>j = 2 * k\<close> is \<open>k\<close> itself), so the loop is a partial function: \<open>None\<close>
  stands for a loop that never ends. \<open>Q ! 0\<close> is read again in every round, as in the
  source.
\<close>

partial_function (option) MkzDownQueue_loop ::
  "nat list \<Rightarrow> nat list \<Rightarrow> nat \<Rightarrow> nat \<Rightarrow> (nat list \<times> nat list \<times> nat) option" where
  "MkzDownQueue_loop Q A k cnt =
     (let j = 2 * k in
      if j \<le> Q ! 0 then
        (let j = (if j < Q ! 0 \<and> MkzGet Q j 1 > MkzGet Q (j + 1) 1 then j + 1 else j) in
         if cnt \<le> MkzGet Q j 1 then Some (Q, A, k)
         else MkzDownQueue_loop (fst (MkzAssign Q A k j)) (snd (MkzAssign Q A k j)) j cnt)
      else Some (Q, A, k))"

definition MkzDownQueue :: "nat list \<Rightarrow> nat list \<Rightarrow> nat \<Rightarrow> (nat list \<times> nat list) option" where
  "MkzDownQueue Q A k =
     (let dj = MkzGet Q k 0; cnt = MkzGet Q k 1 in
      case MkzDownQueue_loop Q A k cnt of
        None \<Rightarrow> None
      | Some (Q', A', k') \<Rightarrow> Some (MkzSet (MkzSet Q' k' 0 dj) k' 1 cnt, A'[dj := k']))"

definition MkzMoveUpOrDown :: "nat list \<Rightarrow> nat list \<Rightarrow> nat \<Rightarrow> (nat list \<times> nat list) option" where
  "MkzMoveUpOrDown Q A k =
     (if k = 1 then MkzDownQueue Q A k
      else if MkzGet Q (k div 2) 1 > MkzGet Q k 1 then Some (MkzUpQueue Q A k)
      else MkzDownQueue Q A k)"

text \<open>
  \<^verbatim>\<open>MkzClear\<close> prints one number when \<open>verbose\<close> is set and frees the two arrays. The
  model returns what is printed after \<^verbatim>\<open>Max Markowitz count:\<close>.
\<close>

definition MkzClear :: "filter_matrix \<Rightarrow> bool \<Rightarrow> nat option" where
  "MkzClear mat verbose =
     (if verbose then Some (MkzGet (MKZQ mat) (MKZQ mat ! 0) 1) else None)"

text \<open>
  Modelled from the spec: the macro \<^verbatim>\<open>ASSERT\<close> is not defined in the sources at hand; the
  spec makes a failed assertion fatal. \<^verbatim>\<open>MkzUpdate\<close> therefore has three outcomes:
  \<open>Some (Inl AssertionFailed)\<close> when the assertion stops the program, \<open>Some (Inr mat')\<close>
  when it returns with the matrix \<open>mat'\<close>, and \<open>None\<close> when it does not return.
\<close>

datatype error = AssertionFailed

definition MkzUpdate :: "filter_matrix \<Rightarrow> nat \<Rightarrow> (error + filter_matrix) option" where
  "MkzUpdate mat j =
     (let adr = MKZA mat ! j in
      if \<not> (adr \<noteq> MKZ_INF) then Some (Inl AssertionFailed)
      else
        (let mkz = nat (MkzCount mat j);
             Q = MkzSet (MKZQ mat) adr 1 mkz
         in case MkzMoveUpOrDown Q (MKZA mat) adr of
              None \<Rightarrow> None
            | Some (Q', A') \<Rightarrow> Some (Inr (mat\<lparr>MKZQ := Q', MKZA := A'\<rparr>))))"

text \<open>The version of \<^verbatim>\<open>MkzUpdateN\<close> that is compiled: one \<^verbatim>\<open>MkzUpdate\<close> after the other.\<close>

fun MkzUpdateN :: "filter_matrix \<Rightarrow> nat list \<Rightarrow> (error + filter_matrix) option" where
  "MkzUpdateN mat [] = Some (Inr mat)"
| "MkzUpdateN mat (j # js) =
     (case MkzUpdate mat j of
        None \<Rightarrow> None
      | Some (Inl e) \<Rightarrow> Some (Inl e)
      | Some (Inr mat') \<Rightarrow> MkzUpdateN mat' js)"

text \<open>
  The version of \<^verbatim>\<open>MkzUpdateN\<close> under \<^verbatim>\<open>#if 0\<close>, which is the two-phase procedure of the
  spec: all costs are computed first, from the matrix alone; then, for each column in the
  order supplied, the cost is written and the heap repaired. It has no assertion.
\<close>

fun MkzUpdateN_repair ::
  "nat list \<Rightarrow> nat list \<Rightarrow> (nat \<times> nat) list \<Rightarrow> (nat list \<times> nat list) option" where
  "MkzUpdateN_repair Q A [] = Some (Q, A)"
| "MkzUpdateN_repair Q A ((j, mkz) # rest) =
     (let adr = A ! j in
      case MkzMoveUpOrDown (MkzSet Q adr 1 mkz) A adr of
        None \<Rightarrow> None
      | Some (Q', A') \<Rightarrow> MkzUpdateN_repair Q' A' rest)"

definition MkzUpdateN_parallel :: "filter_matrix \<Rightarrow> nat list \<Rightarrow> filter_matrix option" where
  "MkzUpdateN_parallel mat js =
     (let mkz = map (\<lambda>j. nat (MkzCount mat j)) js in
      case MkzUpdateN_repair (MKZQ mat) (MKZA mat) (zip js mkz) of
        None \<Rightarrow> None
      | Some (Q', A') \<Rightarrow> Some (mat\<lparr>MKZQ := Q', MKZA := A'\<rparr>))"

text \<open>
  Modelled from the spec: the helpers \<^verbatim>\<open>incrS\<close> and \<^verbatim>\<open>decrS\<close> of the two operations on the
  weight of a column are not defined in the sources at hand; the spec calls them a
  saturating increment and decrement, and they are parameters here.
\<close>

definition MkzIncrCol :: "(int \<Rightarrow> int) \<Rightarrow> filter_matrix \<Rightarrow> nat \<Rightarrow> filter_matrix \<times> int" where
  "MkzIncrCol incrS mat j =
     (let ind = incrS (wt mat ! j) in (mat\<lparr>wt := (wt mat)[j := ind]\<rparr>, ind))"

definition MkzDecreaseColWeight :: "(int \<Rightarrow> int) \<Rightarrow> filter_matrix \<Rightarrow> nat \<Rightarrow> filter_matrix" where
  "MkzDecreaseColWeight decrS mat j =
     (let dj = j in mat\<lparr>wt := (wt mat)[dj := decrS (wt mat ! dj)]\<rparr>)"

subsection \<open>The invariants of the queue\<close>

text \<open>
  The arrays are large enough for the \<open>Q ! 0\<close> items, and the number of items is below
  the sentinel.
\<close>

definition queue_wf :: "nat list \<Rightarrow> bool" where
  "queue_wf Q \<longleftrightarrow> 2 * (Q ! 0) + 2 \<le> length Q \<and> Q ! 0 < MKZ_INF"

text \<open>
  The bijection invariant: every live slot \<open>k\<close> holds a column whose address is \<open>k\<close>, and
  the address of every alive column is a live slot that holds this column.
\<close>

definition bijection_inv :: "nat list \<Rightarrow> nat list \<Rightarrow> bool" where
  "bijection_inv Q A \<longleftrightarrow>
     (\<forall>k \<in> {1..Q ! 0}. MkzGet Q k 0 < length A \<and> A ! (MkzGet Q k 0) = k) \<and>
     (\<forall>c \<in> {0..<length A}. MkzIsAlive A c \<longrightarrow>
         1 \<le> A ! c \<and> A ! c \<le> Q ! 0 \<and> MkzGet Q (A ! c) 0 = c)"

text \<open>The heap property: no cost is larger than the cost of a son.\<close>

definition heap_inv :: "nat list \<Rightarrow> bool" where
  "heap_inv Q \<longleftrightarrow>
     (\<forall>k \<in> {1..Q ! 0}.
        (2 * k \<le> Q ! 0 \<longrightarrow> MkzGet Q k 1 \<le> MkzGet Q (2 * k) 1) \<and>
        (2 * k + 1 \<le> Q ! 0 \<longrightarrow> MkzGet Q k 1 \<le> MkzGet Q (2 * k + 1) 1))"

definition queue_inv :: "filter_matrix \<Rightarrow> bool" where
  "queue_inv mat \<longleftrightarrow> queue_wf (MKZQ mat) \<and> bijection_inv (MKZQ mat) (MKZA mat)"

text \<open>The columns in the live slots, in slot order, and the cost stored for a column.\<close>

definition queue_columns :: "nat list \<Rightarrow> nat list" where
  "queue_columns Q = map (\<lambda>k. MkzGet Q k 0) [1..<Suc (Q ! 0)]"

definition stored_cost :: "filter_matrix \<Rightarrow> nat \<Rightarrow> nat" where
  "stored_cost mat c = MkzGet (MKZQ mat) (MKZA mat ! c) 1"

text \<open>
  The cost at the root, and the quantity that the spec attributes to the teardown: the
  largest cost seen at the root over a run, the run being given by the list of the states
  of the matrix between the operations.
\<close>

definition root_cost :: "filter_matrix \<Rightarrow> nat" where
  "root_cost mat = MkzGet (MKZQ mat) 1 1"

definition max_root_cost_observed :: "filter_matrix list \<Rightarrow> nat" where
  "max_root_cost_observed run = Max (set (map root_cost run))"

subsection \<open>Auxiliary notions for the proofs\<close>

text \<open>
  The two sifting loops keep the pair \<open>(dj, cnt)\<close> aside and leave a stale copy in slot
  \<open>k\<close>. The proofs look at the arrays as they will be once the pair is written back to
  slot \<open>k\<close>: \<open>vcol\<close>, \<open>vcost\<close> and \<open>vadr\<close> are the columns, the costs and the addresses of
  that state, as functions of the slot or of the column. One round of a loop then exchanges
  two slots (\<open>swp\<close>). \<open>qcol\<close>, \<open>qcost\<close> read the arrays as they are.
\<close>

definition swp :: "nat \<Rightarrow> nat \<Rightarrow> nat \<Rightarrow> nat" where
  "swp a b i = (if i = a then b else if i = b then a else i)"

definition bij_on :: "nat \<Rightarrow> nat \<Rightarrow> (nat \<Rightarrow> nat) \<Rightarrow> (nat \<Rightarrow> nat) \<Rightarrow> bool" where
  "bij_on n m col adr \<longleftrightarrow>
     (\<forall>i. 1 \<le> i \<and> i \<le> n \<longrightarrow> col i < m \<and> adr (col i) = i) \<and>
     (\<forall>c<m. adr c \<noteq> MKZ_INF \<longrightarrow> 1 \<le> adr c \<and> adr c \<le> n \<and> col (adr c) = c)"

definition heap_fn :: "nat \<Rightarrow> (nat \<Rightarrow> nat) \<Rightarrow> bool" where
  "heap_fn n cost \<longleftrightarrow> (\<forall>i. 2 \<le> i \<and> i \<le> n \<longrightarrow> cost (i div 2) \<le> cost i)"

definition up_inv :: "nat \<Rightarrow> (nat \<Rightarrow> nat) \<Rightarrow> nat \<Rightarrow> bool" where
  "up_inv n cost k \<longleftrightarrow>
     (\<forall>i. 2 \<le> i \<and> i \<le> n \<and> i \<noteq> k \<longrightarrow> cost (i div 2) \<le> cost i) \<and>
     (\<forall>i. 2 \<le> i \<and> i \<le> n \<and> i div 2 = k \<and> 2 \<le> k \<longrightarrow> cost (k div 2) \<le> cost i)"

definition down_inv :: "nat \<Rightarrow> (nat \<Rightarrow> nat) \<Rightarrow> nat \<Rightarrow> bool" where
  "down_inv n cost k \<longleftrightarrow>
     (\<forall>i. 2 \<le> i \<and> i \<le> n \<and> i div 2 \<noteq> k \<longrightarrow> cost (i div 2) \<le> cost i) \<and>
     (\<forall>i. 2 \<le> i \<and> i \<le> n \<and> i div 2 = k \<and> 2 \<le> k \<longrightarrow> cost (k div 2) \<le> cost i)"

definition min_son :: "nat \<Rightarrow> (nat \<Rightarrow> nat) \<Rightarrow> nat \<Rightarrow> nat" where
  "min_son n cost k = (if 2 * k < n \<and> cost (2 * k) > cost (2 * k + 1) then 2 * k + 1 else 2 * k)"

definition vcol :: "nat list \<Rightarrow> nat \<Rightarrow> nat \<Rightarrow> nat \<Rightarrow> nat" where
  "vcol Q k dj = (\<lambda>i. if i = k then dj else MkzGet Q i 0)"

definition vcost :: "nat list \<Rightarrow> nat \<Rightarrow> nat \<Rightarrow> nat \<Rightarrow> nat" where
  "vcost Q k cnt = (\<lambda>i. if i = k then cnt else MkzGet Q i 1)"

definition vadr :: "nat list \<Rightarrow> nat \<Rightarrow> nat \<Rightarrow> nat \<Rightarrow> nat" where
  "vadr A k dj = (\<lambda>c. if c = dj then k else A ! c)"

definition qcol :: "nat list \<Rightarrow> nat \<Rightarrow> nat" where
  "qcol Q = (\<lambda>i. MkzGet Q i 0)"

definition qcost :: "nat list \<Rightarrow> nat \<Rightarrow> nat" where
  "qcost Q = (\<lambda>i. MkzGet Q i (Suc 0))"

definition view_inv ::
  "nat \<Rightarrow> nat \<Rightarrow> (nat \<Rightarrow> nat) \<Rightarrow> (nat \<Rightarrow> bool) \<Rightarrow> (nat \<Rightarrow> nat) \<Rightarrow> (nat \<Rightarrow> nat) \<Rightarrow> (nat \<Rightarrow> nat) \<Rightarrow> bool" where
  "view_inv n m C D col cost adr \<longleftrightarrow>
     bij_on n m col adr \<and>
     (\<forall>i. 1 \<le> i \<and> i \<le> n \<longrightarrow> cost i = C (col i)) \<and>
     (\<forall>c<m. (adr c = MKZ_INF) = D c)"

definition up_P ::
  "nat \<Rightarrow> nat \<Rightarrow> (nat \<Rightarrow> nat) \<Rightarrow> (nat \<Rightarrow> bool) \<Rightarrow> bool \<Rightarrow> (nat \<Rightarrow> nat) \<Rightarrow> (nat \<Rightarrow> nat) \<Rightarrow> (nat \<Rightarrow> nat) \<Rightarrow> nat \<Rightarrow> bool" where
  "up_P n m C D H col cost adr k \<longleftrightarrow>
     view_inv n m C D col cost adr \<and> 1 \<le> k \<and> k \<le> n \<and> (H \<longrightarrow> up_inv n cost k)"

definition down_P ::
  "nat \<Rightarrow> nat \<Rightarrow> (nat \<Rightarrow> nat) \<Rightarrow> (nat \<Rightarrow> bool) \<Rightarrow> bool \<Rightarrow> (nat \<Rightarrow> nat) \<Rightarrow> (nat \<Rightarrow> nat) \<Rightarrow> (nat \<Rightarrow> nat) \<Rightarrow> nat \<Rightarrow> bool" where
  "down_P n m C D H col cost adr k \<longleftrightarrow>
     view_inv n m C D col cost adr \<and> 1 \<le> k \<and> k \<le> n \<and> (H \<longrightarrow> down_inv n cost k)"

subsection \<open>Concrete matrices\<close>

text \<open>
  \<open>ex_mat\<close>: five columns of weights 1, 2, 3, 3, 5 over six rows of lengths 5, 3, 7, 2, 4, 6,
  under the pure Markowitz policy; the queue holds the clamped costs 0, 0, 0, 0, 1.
\<close>

definition ex_mat :: filter_matrix where
  "ex_mat = \<lparr> wt = [1, 2, 3, 3, 5],
     R = [[1, 0], [2, 0, 1], [3, 0, 1, 2], [3, 1, 2, 3], [5, 0, 1, 2, 4, 5]],
     matLengthRow = (\<lambda>i. [5, 3, 7, 2, 4, 6] ! i), wmstmax = 3, mkztype = MKZTYPE_PURE,
     weightSum = (\<lambda>i1 i2 j. 6), minCostUsingMST = (\<lambda>w ind j. 9),
     MKZQ = [5, 0, 0, 0, 1, 0, 2, 0, 3, 0, 4, 1], MKZA = [1, 2, 3, 4, 5] \<rparr>"

text \<open>
  \<open>ex_queue\<close>: the queue was built under the Cavallar policy from the weights
  0, 1, 2, 3, 5; the weight of column 0 has since grown to 4, and its cost in the queue is
  still 0. \<open>ex_queue_after\<close> is the state after the cost of column 0 is updated.
\<close>

definition ex_queue :: filter_matrix where
  "ex_queue = \<lparr> wt = [4, 1, 2, 3, 5],
     R = [[4, 0, 1, 2, 3], [1, 0], [2, 0, 1], [3, 1, 2, 3], [5, 0, 1, 2, 4, 5]],
     matLengthRow = (\<lambda>i. [5, 3, 7, 2, 4, 6] ! i), wmstmax = 3, mkztype = MKZTYPE_CAVALLAR,
     weightSum = (\<lambda>i1 i2 j. 6), minCostUsingMST = (\<lambda>w ind j. 9),
     MKZQ = [5, 0, 0, 0, 1, 1, 2, 2, 3, 3, 4, 5], MKZA = [1, 2, 3, 4, 5] \<rparr>"

definition ex_queue_after :: filter_matrix where
  "ex_queue_after = ex_queue\<lparr>MKZQ := [5, 0, 1, 1, 3, 3, 2, 2, 0, 4, 4, 5], MKZA := [4, 1, 3, 2, 5]\<rparr>"

text \<open>
  \<open>ex_queue_up\<close>: as \<open>ex_queue\<close>, but the weight of column 0 is still 0 and the weight
  of column 4 has dropped to 0.
\<close>

definition ex_queue_up :: filter_matrix where
  "ex_queue_up = ex_queue\<lparr>wt := [0, 1, 2, 3, 0]\<rparr>"

definition ex_queue_up_after :: filter_matrix where
  "ex_queue_up_after =
     ex_queue_up\<lparr>MKZQ := [5, 0, 4, 0, 0, 0, 2, 2, 3, 3, 1, 1], MKZA := [2, 5, 3, 4, 1]\<rparr>"

text \<open>
  \<open>big_mat\<close>: one column of weight 46343 over the rows 0 to 46342, each of length 46343.
  \<open>ex_heap3\<close>: a heap of three columns with the costs 1, 5, 2 in the slots 1, 2, 3.
\<close>

definition big_mat :: filter_matrix where
  "big_mat = \<lparr> wt = [46343], R = [46343 # [0..<46343]],
     matLengthRow = (\<lambda>i. 46343), wmstmax = 3, mkztype = MKZTYPE_PURE,
     weightSum = (\<lambda>i1 i2 j. 6), minCostUsingMST = (\<lambda>w ind j. 9),
     MKZQ = [1, 0, 0, 0], MKZA = [1] \<rparr>"

definition ex_heap3 :: filter_matrix where
  "ex_heap3 = \<lparr> wt = [1, 5, 2], R = [[1, 0], [5, 0, 1, 2, 3, 4], [2, 0, 1]],
     matLengthRow = (\<lambda>i. [5, 3, 7, 2, 4] ! i), wmstmax = 3, mkztype = MKZTYPE_CAVALLAR,
     weightSum = (\<lambda>i1 i2 j. 6), minCostUsingMST = (\<lambda>w ind j. 9),
     MKZQ = [3, 0, 0, 1, 1, 5, 2, 2], MKZA = [1, 2, 3] \<rparr>"

text \<open>\<open>ex_dead\<close>: three columns, of which column 1 is dead.\<close>

definition ex_dead :: filter_matrix where
  "ex_dead = \<lparr> wt = [1, 7, 3], R = [[1, 0], [0], [3, 0, 1, 2]],
     matLengthRow = (\<lambda>i. [5, 3, 7] ! i), wmstmax = 3, mkztype = MKZTYPE_CAVALLAR,
     weightSum = (\<lambda>i1 i2 j. 6), minCostUsingMST = (\<lambda>w ind j. 9),
     MKZQ = [2, 0, 0, 1, 2, 3], MKZA = [1, MKZ_INF, 2] \<rparr>"

section \<open>Properties of the cost policies\<close>

lemma pureMkz_loop_Min:
  assumes "1 \<le> k" "length Rj = Suc (Rj ! 0)"
  shows "pureMkz_loop len Rj k w0 = Min (insert w0 (len ` set (drop k Rj)))"
  using assms
proof (induction len Rj k w0 rule: pureMkz_loop.induct)
  case (1 len Rj k w0)
  show ?case
  proof (cases "k \<le> Rj ! 0")
    case True
    then have klt: "k < length Rj" using "1.prems" by simp
    then have dr: "drop k Rj = Rj ! k # drop (Suc k) Rj"
      by (simp add: Cons_nth_drop_Suc)
    let ?w = "if len (Rj ! k) < w0 then len (Rj ! k) else w0"
    have "pureMkz_loop len Rj k w0 = pureMkz_loop len Rj (k + 1) ?w"
      using True by (subst pureMkz_loop.simps) simp
    also have "\<dots> = Min (insert ?w (len ` set (drop (k + 1) Rj)))"
      using "1.IH" [OF True] "1.prems" by simp
    also have "\<dots> = Min (insert w0 (insert (len (Rj ! k)) (len ` set (drop (Suc k) Rj))))"
    proof (cases "len ` set (drop (Suc k) Rj) = {}")
      case True
      then show ?thesis by (simp add: min_def)
    next
      case False
      let ?S = "len ` set (drop (Suc k) Rj)"
      have fin: "finite ?S" by simp
      have a: "Min (insert ?w ?S) = min ?w (Min ?S)"
        using fin False by (rule Min_insert)
      have b: "Min (insert w0 (insert (len (Rj ! k)) ?S)) = min w0 (min (len (Rj ! k)) (Min ?S))"
        using fin False by simp
      show ?thesis unfolding b using a by (simp add: min_def)
    qed
    finally show ?thesis by (simp add: dr)
  next
    case False
    then have "drop k Rj = []" using "1.prems" by simp
    then show ?thesis using False by (subst pureMkz_loop.simps) simp
  qed
qed


lemma pureMkz_min:
  assumes "col_in_sync mat j" "2 < wt mat ! j"
  shows "pureMkz_loop (matLengthRow mat) (R mat ! j) 2 (matLengthRow mat (R mat ! j ! 1))
         = min_row_length mat j"
proof -
  let ?Rj = "R mat ! j" and ?len = "matLengthRow mat"
  have len: "length ?Rj = Suc (?Rj ! 0)" and n: "3 \<le> ?Rj ! 0"
    using assms by (simp_all add: col_in_sync_def)
  then have "1 < length ?Rj" by simp
  then have dr: "drop (Suc 0) ?Rj = ?Rj ! Suc 0 # drop 2 ?Rj"
    using Cons_nth_drop_Suc [of "Suc 0" ?Rj] by (simp add: numeral_2_eq_2)
  have "pureMkz_loop ?len ?Rj 2 (?len (?Rj ! 1))
        = Min (insert (?len (?Rj ! 1)) (?len ` set (drop 2 ?Rj)))"
    using len by (simp add: pureMkz_loop_Min)
  also have "\<dots> = Min (?len ` set (drop (Suc 0) ?Rj))"
    by (simp add: dr)
  finally show ?thesis
    by (simp add: min_row_length_def rows_of_def drop_Suc)
qed

lemma to_int32_id:
  assumes "- 2147483648 \<le> x" "x \<le> 2147483647"
  shows "to_int32 x = x"
proof -
  have "(x + 2147483648) mod 4294967296 = x + 2147483648"
    using assms by (intro mod_pos_pos_trivial) simp_all
  then show ?thesis by (simp add: to_int32_def)
qed

lemma big_mat_sync: "col_in_sync big_mat 0"
  by (simp add: col_in_sync_def big_mat_def)

lemma big_mat_min: "min_row_length big_mat 0 = 46343"
  by (simp add: min_row_length_def rows_of_def big_mat_def map_replicate_const)

text \<open>
  Claim C1, as stated: for a column whose weight equals the number of rows listed for it,
  \<^verbatim>\<open>pureMkz\<close> returns \<open>(w0 - 2) * (w - 2) - 2\<close> when the weight \<open>w\<close> exceeds 2. It fails for
  the column of \<open>big_mat\<close>, where \<open>w = w0 = 46343\<close>: the expression is 2147488279, which no
  \<^verbatim>\<open>int\<close> holds, and the function returns -2147479017.
\<close>

theorem pureMkz_overflow_counterexample:
  "col_in_sync big_mat 0 \<and> wt big_mat ! 0 = 46343 \<and> min_row_length big_mat 0 = 46343 \<and>
   (int (min_row_length big_mat 0) - 2) * (wt big_mat ! 0 - 2) - 2 = 2147488279 \<and>
   pureMkz big_mat 0 = - 2147479017 \<and>
   pureMkz big_mat 0 \<noteq> (int (min_row_length big_mat 0) - 2) * (wt big_mat ! 0 - 2) - 2"
proof -
  have w: "wt big_mat ! 0 = 46343" by (simp add: big_mat_def)
  have "pureMkz big_mat 0 = to_int32 ((int (min_row_length big_mat 0) - 2) * (46343 - 2) - 2)"
    using pureMkz_min [OF big_mat_sync] w by (simp add: pureMkz_def Let_def)
  then have p: "pureMkz big_mat 0 = - 2147479017"
    by (simp add: big_mat_min to_int32_def)
  show ?thesis using big_mat_sync w p by (simp add: big_mat_min)
qed

text \<open>
  Claim C1, amended. For a column \<open>j\<close> whose weight equals the number of rows listed for
  it, \<^verbatim>\<open>pureMkz\<close> returns \<open>-4\<close> when the weight \<open>w\<close> is at most 1, \<open>-2\<close> when \<open>w = 2\<close>, and
  otherwise the value \<open>(w0 - 2) * (w - 2) - 2\<close> converted to a 32-bit \<^verbatim>\<open>int\<close>, where \<open>w0\<close> is
  the least length among the rows that reference \<open>j\<close>: this is the value itself whenever it
  lies between \<open>- 2 ^ 31\<close> and \<open>2 ^ 31 - 1\<close>.
\<close>

theorem pureMkz_spec:
  assumes "col_in_sync mat j"
  shows "pureMkz mat j =
           (if wt mat ! j \<le> 1 then - 4
            else if wt mat ! j = 2 then - 2
            else to_int32 (fill_in_estimate mat j)) \<and>
         (2 < wt mat ! j \<and> - 2147483648 \<le> fill_in_estimate mat j \<and>
          fill_in_estimate mat j \<le> 2147483647 \<longrightarrow>
            pureMkz mat j = fill_in_estimate mat j)"
proof -
  have e: "pureMkz mat j =
           (if wt mat ! j \<le> 1 then - 4
            else if wt mat ! j = 2 then - 2
            else to_int32 (fill_in_estimate mat j))"
    using assms pureMkz_min [of mat j] by (simp add: pureMkz_def fill_in_estimate_def Let_def)
  show ?thesis using e to_int32_id [of "fill_in_estimate mat j"] by simp
qed

theorem pureMkz_spec_witness:
  "col_in_sync ex_mat 4 \<and> 2 < wt ex_mat ! 4 \<and> min_row_length ex_mat 4 = 3 \<and>
   fill_in_estimate ex_mat 4 = 1 \<and> - 2147483648 \<le> fill_in_estimate ex_mat 4 \<and>
   fill_in_estimate ex_mat 4 \<le> 2147483647 \<and> pureMkz ex_mat 4 = 1 \<and>
   col_in_sync big_mat 0 \<and> pureMkz big_mat 0 = to_int32 2147488279"
proof -
  have h: "col_in_sync ex_mat 4" "2 < wt ex_mat ! 4" "min_row_length ex_mat 4 = 3"
    "fill_in_estimate ex_mat 4 = 1"
    by (simp_all add: col_in_sync_def fill_in_estimate_def min_row_length_def rows_of_def
        ex_mat_def)
  have b: "wt big_mat ! 0 = 46343" "fill_in_estimate big_mat 0 = 2147488279"
    by (simp_all add: fill_in_estimate_def big_mat_min) (simp_all add: big_mat_def)
  have "pureMkz ex_mat 4 = 1" using pureMkz_spec [OF h(1)] h by simp
  moreover have "pureMkz big_mat 0 = to_int32 2147488279"
    using pureMkz_spec [OF big_mat_sync] b by simp
  ultimately show ?thesis using h big_mat_sync by simp
qed



text \<open>
  Claim C8. Under the pure Markowitz policy the cost before the clamp is \<open>-4\<close> for a
  column of weight 0 or 1, \<open>-2\<close> for a column of weight 2, and \<open>-2\<close> for a column of
  weight 3 whose lightest row has length 2; \<^verbatim>\<open>MkzCount\<close> turns all three into 0, so after
  the clamp the column of weight 3 ties with the column of weight 2 and is not below it.
\<close>

theorem pureMkz_boundary:
  assumes "mkztype mat = MKZTYPE_PURE"
    and "wt mat ! j1 = 0 \<or> wt mat ! j1 = 1"
    and "wt mat ! j2 = 2"
    and "wt mat ! j3 = 3" "col_in_sync mat j3" "min_row_length mat j3 = 2"
  shows "pureMkz mat j1 = - 4 \<and> pureMkz mat j2 = - 2 \<and> pureMkz mat j3 = - 2 \<and>
         MkzCount mat j1 = 0 \<and> MkzCount mat j2 = 0 \<and> MkzCount mat j3 = 0 \<and>
         MkzCount mat j3 = MkzCount mat j2 \<and> \<not> MkzCount mat j3 < MkzCount mat j2"
proof -
  have 1: "pureMkz mat j1 = - 4" using assms(2) by (auto simp: pureMkz_def)
  have 2: "pureMkz mat j2 = - 2" using assms(3) by (simp add: pureMkz_def)
  have 3: "pureMkz mat j3 = - 2"
    using assms(4,5,6) pureMkz_min [of mat j3] by (simp add: pureMkz_def to_int32_def Let_def)
  show ?thesis using 1 2 3 assms(1) by (simp add: MkzCount_def)
qed

theorem pureMkz_boundary_witness:
  "mkztype ex_mat = MKZTYPE_PURE \<and> wt ex_mat ! 0 = 1 \<and> wt ex_mat ! 1 = 2 \<and>
   wt ex_mat ! 3 = 3 \<and> col_in_sync ex_mat 3 \<and> min_row_length ex_mat 3 = 2 \<and>
   pureMkz ex_mat 0 = - 4 \<and> pureMkz ex_mat 1 = - 2 \<and> pureMkz ex_mat 3 = - 2 \<and>
   MkzCount ex_mat 0 = 0 \<and> MkzCount ex_mat 1 = 0 \<and> MkzCount ex_mat 3 = 0"
proof -
  have h: "mkztype ex_mat = MKZTYPE_PURE" "wt ex_mat ! 0 = 0 \<or> wt ex_mat ! 0 = 1"
    "wt ex_mat ! 1 = 2" "wt ex_mat ! 3 = 3" "col_in_sync ex_mat 3" "min_row_length ex_mat 3 = 2"
    by (simp_all add: ex_mat_def col_in_sync_def min_row_length_def rows_of_def)
  have w: "wt ex_mat ! 0 = 1" by (simp add: ex_mat_def)
  show ?thesis using pureMkz_boundary [OF h] h w by simp
qed

section \<open>Properties of the queue operations\<close>

subsection \<open>Exchanging two slots\<close>

text \<open>
  The bijection between slots and columns, and the heap order around the slot that is
  being moved, as properties of functions. \<open>up_inv n cost k\<close> says that the only edge of
  the heap that may be out of order is the one from \<open>k\<close> to its father; \<open>down_inv n cost k\<close>
  that the only ones are those from \<open>k\<close> to its sons.
\<close>

lemma bij_on_inj:
  assumes "bij_on n m col adr" "1 \<le> a" "a \<le> n" "1 \<le> b" "b \<le> n" "col a = col b"
  shows "a = b"
  using assms unfolding bij_on_def by metis

lemma bij_on_swap:
  assumes b: "bij_on n m col adr" and a: "1 \<le> a" "a \<le> n" "1 \<le> b" "b \<le> n"
  shows "bij_on n m (col \<circ> swp a b) (adr(col b := a, col a := b))"
  unfolding bij_on_def
proof (intro conjI allI impI)
  fix i assume i: "1 \<le> i \<and> i \<le> n"
  then have s: "1 \<le> swp a b i \<and> swp a b i \<le> n" using a by (simp add: swp_def)
  then show "(col \<circ> swp a b) i < m" using b by (simp add: bij_on_def)
  show "(adr(col b := a, col a := b)) ((col \<circ> swp a b) i) = i"
  proof -
    have inj: "\<And>x y. 1 \<le> x \<Longrightarrow> x \<le> n \<Longrightarrow> 1 \<le> y \<Longrightarrow> y \<le> n \<Longrightarrow> col x = col y \<Longrightarrow> x = y"
      using bij_on_inj [OF b] by blast
    have ai: "adr (col i) = i" using b i by (simp add: bij_on_def)
    show ?thesis
      using i a inj [of i a] inj [of i b] inj [of a b] ai by (auto simp: swp_def)
  qed
next
  fix c assume c: "c < m" and al: "(adr(col b := a, col a := b)) c \<noteq> MKZ_INF"
  show "1 \<le> (adr(col b := a, col a := b)) c" "(adr(col b := a, col a := b)) c \<le> n"
    using b c al a by (auto simp: bij_on_def)
  show "(col \<circ> swp a b) ((adr(col b := a, col a := b)) c) = c"
  proof (cases "c = col a \<or> c = col b")
    case True
    then show ?thesis by (auto simp: swp_def)
  next
    case False
    then have "adr c \<noteq> MKZ_INF" using al by simp
    then have "col (adr c) = c" using b c by (simp add: bij_on_def)
    then show ?thesis using False by (auto simp: swp_def)
  qed
qed

lemma up_inv_swap:
  assumes u: "up_inv n cost k" and k: "1 < k" "k \<le> n" and le: "cost k \<le> cost (k div 2)"
  shows "up_inv n (cost \<circ> swp k (k div 2)) (k div 2)"
  unfolding up_inv_def
proof (intro conjI allI impI)
  let ?p = "k div 2"
  have pk: "?p < k" "1 \<le> ?p" using k by auto
  fix i assume i: "2 \<le> i \<and> i \<le> n \<and> i \<noteq> ?p"
  have e1: "\<And>x. 2 \<le> x \<Longrightarrow> x \<le> n \<Longrightarrow> x \<noteq> k \<Longrightarrow> cost (x div 2) \<le> cost x"
    using u by (simp add: up_inv_def)
  have e2: "\<And>x. 2 \<le> x \<Longrightarrow> x \<le> n \<Longrightarrow> x div 2 = k \<Longrightarrow> cost ?p \<le> cost x"
    using u k by (simp add: up_inv_def)
  show "(cost \<circ> swp k ?p) (i div 2) \<le> (cost \<circ> swp k ?p) i"
  proof (cases "i = k")
    case True
    then show ?thesis using le pk by (simp add: swp_def)
  next
    case ik: False
    show ?thesis
    proof (cases "i div 2 = k")
      case True
      then show ?thesis using e2 [of i] i ik pk by (simp add: swp_def)
    next
      case False
      note nk = this
      show ?thesis
      proof (cases "i div 2 = ?p")
        case True
        then show ?thesis using e1 [of i] i ik pk le by (simp add: swp_def)
      next
        case False
        then show ?thesis using e1 [of i] i ik nk by (simp add: swp_def)
      qed
    qed
  qed
next
  let ?p = "k div 2"
  have pk: "?p < k" "1 \<le> ?p" using k by auto
  fix i assume i: "2 \<le> i \<and> i \<le> n \<and> i div 2 = ?p \<and> 2 \<le> ?p"
  have e1: "\<And>x. 2 \<le> x \<Longrightarrow> x \<le> n \<Longrightarrow> x \<noteq> k \<Longrightarrow> cost (x div 2) \<le> cost x"
    using u by (simp add: up_inv_def)
  have pp: "?p div 2 \<noteq> ?p" "?p div 2 \<noteq> k" using i pk by auto
  have c1: "cost (?p div 2) \<le> cost ?p" using e1 [of ?p] i k pk by simp
  show "(cost \<circ> swp k ?p) (?p div 2) \<le> (cost \<circ> swp k ?p) i"
  proof (cases "i = k")
    case True
    then show ?thesis using c1 pp pk by (simp add: swp_def)
  next
    case False
    then have "cost ?p \<le> cost i" using e1 [of i] i by simp
    then show ?thesis using c1 pp pk False i by (auto simp: swp_def)
  qed
qed

lemma up_inv_exit:
  assumes u: "up_inv n cost k" and e: "k \<le> 1 \<or> cost (k div 2) < cost k"
  shows "heap_fn n cost"
  unfolding heap_fn_def
proof (intro allI impI)
  fix i assume i: "2 \<le> i \<and> i \<le> n"
  show "cost (i div 2) \<le> cost i"
  proof (cases "i = k")
    case True
    then show ?thesis using e i by auto
  next
    case False
    then show ?thesis using u i by (simp add: up_inv_def)
  qed
qed

lemma min_son_cases:
  assumes "2 * k \<le> n"
  shows "min_son n cost k = 2 * k \<or> min_son n cost k = 2 * k + 1"
    and "min_son n cost k \<le> n"
    and "min_son n cost k div 2 = k"
    and "\<And>i. i \<le> n \<Longrightarrow> i div 2 = k \<Longrightarrow> cost (min_son n cost k) \<le> cost i"
proof -
  show "min_son n cost k = 2 * k \<or> min_son n cost k = 2 * k + 1"
    by (simp add: min_son_def)
  show "min_son n cost k \<le> n" using assms by (simp add: min_son_def)
  show "min_son n cost k div 2 = k" by (simp add: min_son_def)
  fix i assume i: "i \<le> n" "i div 2 = k"
  then have "i = 2 * k \<or> i = 2 * k + 1" by auto
  then show "cost (min_son n cost k) \<le> cost i"
    using i by (auto simp: min_son_def)
qed

lemma down_inv_swap:
  assumes d: "down_inv n cost k" and k: "1 \<le> k" "2 * k \<le> n"
    and j: "j = min_son n cost k" and lt: "cost j < cost k"
  shows "down_inv n (cost \<circ> swp k j) j"
  unfolding down_inv_def
proof (intro conjI allI impI)
  have jn: "j \<le> n" and jk: "j div 2 = k" and jgt: "k < j"
    using min_son_cases(1,2,3) [OF k(2), of cost] j k by auto
  have jmin: "\<And>i. i \<le> n \<Longrightarrow> i div 2 = k \<Longrightarrow> cost j \<le> cost i"
    using min_son_cases(4) [OF k(2), of _ cost] j by simp
  have e1: "\<And>x. 2 \<le> x \<Longrightarrow> x \<le> n \<Longrightarrow> x div 2 \<noteq> k \<Longrightarrow> cost (x div 2) \<le> cost x"
    using d by (simp add: down_inv_def)
  have e2: "\<And>x. 2 \<le> x \<Longrightarrow> x \<le> n \<Longrightarrow> x div 2 = k \<Longrightarrow> 2 \<le> k \<Longrightarrow> cost (k div 2) \<le> cost x"
    using d by (simp add: down_inv_def)
  {
    fix i assume i: "2 \<le> i \<and> i \<le> n \<and> i div 2 \<noteq> j"
    show "(cost \<circ> swp k j) (i div 2) \<le> (cost \<circ> swp k j) i"
    proof (cases "i = k")
      case True
      then have k2: "2 \<le> k" "k div 2 \<noteq> k" "k div 2 \<noteq> j" using i jgt by auto
      then show ?thesis using True e2 [of j] jn jk jgt by (simp add: swp_def)
    next
      case ik: False
      show ?thesis
      proof (cases "i div 2 = k")
        case True
        then show ?thesis using jmin [of i] i ik lt jgt by (auto simp: swp_def)
      next
        case False
        then show ?thesis using e1 [of i] i ik jk by (auto simp: swp_def)
      qed
    qed
  }
  {
    fix i assume i: "2 \<le> i \<and> i \<le> n \<and> i div 2 = j \<and> 2 \<le> j"
    then have "i \<noteq> k" "i \<noteq> j" using jgt by auto
    moreover have "cost j \<le> cost i" using e1 [of i] i jgt by auto
    ultimately show "(cost \<circ> swp k j) (j div 2) \<le> (cost \<circ> swp k j) i"
      using jk jgt by (simp add: swp_def)
  }
qed

lemma down_inv_exit:
  assumes "down_inv n cost k" "\<forall>i. 2 \<le> i \<and> i \<le> n \<and> i div 2 = k \<longrightarrow> cost k \<le> cost i"
  shows "heap_fn n cost"
  using assms unfolding down_inv_def heap_fn_def by metis

lemma heap_fn_up_inv:
  assumes h: "heap_fn n cost" and k: "2 \<le> k" "k \<le> n" and lt: "v < cost (k div 2)"
  shows "up_inv n (cost(k := v)) k"
  unfolding up_inv_def
proof (intro conjI allI impI)
  have e: "\<And>x. 2 \<le> x \<Longrightarrow> x \<le> n \<Longrightarrow> cost (x div 2) \<le> cost x"
    using h by (simp add: heap_fn_def)
  have pk: "k div 2 \<noteq> k" using k by auto
  {
    fix i assume i: "2 \<le> i \<and> i \<le> n \<and> i \<noteq> k"
    show "(cost(k := v)) (i div 2) \<le> (cost(k := v)) i"
    proof (cases "i div 2 = k")
      case True
      have "v \<le> cost k" using e [of k] k lt by simp
      also have "\<dots> \<le> cost i" using e [of i] i True by simp
      finally show ?thesis using i True by simp
    next
      case False
      then show ?thesis using e [of i] i by simp
    qed
  }
  {
    fix i assume i: "2 \<le> i \<and> i \<le> n \<and> i div 2 = k \<and> 2 \<le> k"
    then have "i \<noteq> k" by auto
    moreover have "cost (k div 2) \<le> cost k" using e [of k] k by simp
    moreover have "cost k \<le> cost i" using e [of i] i by auto
    ultimately show "(cost(k := v)) (k div 2) \<le> (cost(k := v)) i" using pk by simp
  }
qed

lemma heap_fn_down_inv:
  assumes h: "heap_fn n cost" and k: "1 \<le> k" "k \<le> n" and le: "k = 1 \<or> cost (k div 2) \<le> v"
  shows "down_inv n (cost(k := v)) k"
  unfolding down_inv_def
proof (intro conjI allI impI)
  have e: "\<And>x. 2 \<le> x \<Longrightarrow> x \<le> n \<Longrightarrow> cost (x div 2) \<le> cost x"
    using h by (simp add: heap_fn_def)
  {
    fix i assume i: "2 \<le> i \<and> i \<le> n \<and> i div 2 \<noteq> k"
    show "(cost(k := v)) (i div 2) \<le> (cost(k := v)) i"
    proof (cases "i = k")
      case True
      then show ?thesis using le i by auto
    next
      case False
      then show ?thesis using e [of i] i by simp
    qed
  }
  {
    fix i assume i: "2 \<le> i \<and> i \<le> n \<and> i div 2 = k \<and> 2 \<le> k"
    then have "i \<noteq> k" "k div 2 \<noteq> k" by auto
    moreover have "cost (k div 2) \<le> cost k" using e [of k] k i by simp
    moreover have "cost k \<le> cost i" using e [of i] i by auto
    ultimately show "(cost(k := v)) (k div 2) \<le> (cost(k := v)) i" by simp
  }
qed

subsection \<open>The arrays after a write\<close>

lemma length_MkzSet [simp]: "length (MkzSet Q k r v) = length Q"
  by (simp add: MkzSet_def)

lemma MkzSet_nth0: "1 \<le> k \<Longrightarrow> MkzSet Q k r v ! 0 = Q ! 0"
  by (simp add: MkzSet_def)

lemma MkzGet_MkzSet:
  assumes "2 * k + r < length Q" "r < 2" "r' < 2"
  shows "MkzGet (MkzSet Q k r v) i r' = (if i = k \<and> r' = r then v else MkzGet Q i r')"
proof -
  have "(2 * i + r' = 2 * k + r) = (i = k \<and> r' = r)" using assms by presburger
  then show ?thesis using assms by (auto simp: MkzGet_def MkzSet_def nth_list_update)
qed

lemma MkzAssign_facts:
  assumes "1 \<le> k" "2 * k + 1 < length Q" "p \<noteq> k"
  shows "length (fst (MkzAssign Q A k p)) = length Q"
    and "fst (MkzAssign Q A k p) ! 0 = Q ! 0"
    and "MkzGet (fst (MkzAssign Q A k p)) i 0 = (if i = k then MkzGet Q p 0 else MkzGet Q i 0)"
    and "MkzGet (fst (MkzAssign Q A k p)) i (Suc 0)
         = (if i = k then MkzGet Q p (Suc 0) else MkzGet Q i (Suc 0))"
    and "snd (MkzAssign Q A k p) = A[MkzGet Q p 0 := k]"
  using assms by (simp_all add: MkzAssign_def Let_def MkzGet_MkzSet MkzSet_nth0)

lemma vcol_MkzAssign:
  assumes "1 \<le> k" "2 * k + 1 < length Q" "p \<noteq> k"
  shows "vcol (fst (MkzAssign Q A k p)) p dj = vcol Q k dj \<circ> swp k p"
  using assms by (auto simp: vcol_def swp_def MkzAssign_facts fun_eq_iff)

lemma vcost_MkzAssign:
  assumes "1 \<le> k" "2 * k + 1 < length Q" "p \<noteq> k"
  shows "vcost (fst (MkzAssign Q A k p)) p cnt = vcost Q k cnt \<circ> swp k p"
  using assms by (auto simp: vcost_def swp_def MkzAssign_facts fun_eq_iff)

lemma vadr_MkzAssign:
  assumes "1 \<le> k" "2 * k + 1 < length Q" "p \<noteq> k" "MkzGet Q p 0 < length A"
  shows "vadr (snd (MkzAssign Q A k p)) p dj
         = (vadr A k dj)(vcol Q k dj p := k, vcol Q k dj k := p)"
  using assms by (auto simp: vadr_def vcol_def MkzAssign_facts fun_eq_iff nth_list_update)

subsection \<open>The two loops\<close>

text \<open>
  One rule for each loop: a property \<open>P\<close> of the state with \<open>(dj, cnt)\<close> written back to
  slot \<open>k\<close> holds after the loop if the exchange of \<open>k\<close> with its father (with its smaller
  son) keeps it. The loop of \<^verbatim>\<open>MkzDownQueue\<close> is shown to return when it starts at a slot
  \<open>k \<ge> 1\<close>.
\<close>

lemma MkzUpQueue_loop_rule:
  assumes step: "\<And>col cost adr k. P col cost adr k \<Longrightarrow> 1 < k \<Longrightarrow> cost k \<le> cost (k div 2) \<Longrightarrow>
            P (col \<circ> swp k (k div 2)) (cost \<circ> swp k (k div 2))
              (adr(col (k div 2) := k, col k := k div 2)) (k div 2)"
    and bound: "\<And>col cost adr k. P col cost adr k \<Longrightarrow> k \<le> n \<and> (\<forall>i. 1 \<le> i \<and> i \<le> n \<longrightarrow> col i < m)"
    and init: "P (vcol Q k dj) (vcost Q k cnt) (vadr A k dj) k"
    and len: "2 * n + 2 \<le> length Q" "length A = m"
    and res: "MkzUpQueue_loop Q A k cnt = (Q', A', k')"
  shows "P (vcol Q' k' dj) (vcost Q' k' cnt) (vadr A' k' dj) k' \<and>
         length Q' = length Q \<and> length A' = length A \<and> Q' ! 0 = Q ! 0 \<and> k' \<le> k \<and>
         (k' \<le> 1 \<or> vcost Q' k' cnt (k' div 2) < cnt) \<and>
         (1 < k \<and> cnt \<le> MkzGet Q (k div 2) 1 \<longrightarrow> k' < k)"
  using init len res
proof (induction Q A k cnt rule: MkzUpQueue_loop.induct)
  case (1 Q A k cnt)
  let ?p = "k div 2"
  show ?case
  proof (cases "k > 1 \<and> MkzGet Q ?p 1 \<ge> cnt")
    case True
    let ?Q1 = "fst (MkzAssign Q A k ?p)" and ?A1 = "snd (MkzAssign Q A k ?p)"
    have kn: "k \<le> n" and cb: "\<forall>i. 1 \<le> i \<and> i \<le> n \<longrightarrow> vcol Q k dj i < m"
      using bound [OF "1.prems"(1)] by simp_all
    have k1: "1 \<le> k" "2 * k + 1 < length Q" "?p \<noteq> k" "1 \<le> ?p" "?p \<le> n" "?p < k"
      using True kn "1.prems"(2) by auto
    have "vcol Q k dj ?p < m" using cb k1 by blast
    then have pA: "MkzGet Q ?p 0 < length A" using k1 "1.prems"(3) by (simp add: vcol_def)
    have le: "vcost Q k cnt k \<le> vcost Q k cnt ?p" using True k1 by (simp add: vcost_def)
    have P1: "P (vcol ?Q1 ?p dj) (vcost ?Q1 ?p cnt) (vadr ?A1 ?p dj) ?p"
      using step [OF "1.prems"(1) _ le] True
      by (simp add: vcol_MkzAssign [OF k1(1,2,3)] vcost_MkzAssign [OF k1(1,2,3)]
          vadr_MkzAssign [OF k1(1,2,3) pA])
    have l1: "2 * n + 2 \<le> length ?Q1" "length ?A1 = m"
      using "1.prems"(2,3) by (simp_all add: MkzAssign_facts [OF k1(1,2,3)])
    have r1: "MkzUpQueue_loop ?Q1 ?A1 ?p cnt = (Q', A', k')"
      using "1.prems"(4) True by (subst (asm) MkzUpQueue_loop.simps) simp
    note ih = "1.IH" [OF True P1 l1 r1]
    have "k' \<le> ?p" using ih by simp
    then have lt: "k' < k" using k1(6) by (rule order.strict_trans1)
    have eqs: "length ?Q1 = length Q" "length ?A1 = length A" "?Q1 ! 0 = Q ! 0"
      using "1.prems"(3) l1(2) by (simp_all add: MkzAssign_facts [OF k1(1,2,3)])
    show ?thesis using ih lt unfolding eqs by simp
  next
    case False
    have "MkzUpQueue_loop Q A k cnt = (Q, A, k)"
      using False by (subst MkzUpQueue_loop.simps) auto
    then have "(Q', A', k') = (Q, A, k)" using "1.prems"(4) by simp
    then show ?thesis using False "1.prems"(1) by (auto simp: vcost_def)
  qed
qed

lemma MkzDownQueue_loop_unfold:
  assumes "1 \<le> k" "Q ! 0 = n"
  shows "MkzDownQueue_loop Q A k cnt =
     (if 2 * k \<le> n then
        (if cnt \<le> MkzGet Q (min_son n (vcost Q k cnt) k) (Suc 0) then Some (Q, A, k)
         else MkzDownQueue_loop (fst (MkzAssign Q A k (min_son n (vcost Q k cnt) k)))
                (snd (MkzAssign Q A k (min_son n (vcost Q k cnt) k)))
                (min_son n (vcost Q k cnt) k) cnt)
      else Some (Q, A, k))"
proof -
  have "2 * k \<noteq> k" "2 * k + 1 \<noteq> k" using assms by auto
  then have "min_son n (vcost Q k cnt) k
      = (if 2 * k < Q ! 0 \<and> MkzGet Q (2 * k) 1 > MkzGet Q (2 * k + 1) 1 then 2 * k + 1 else 2 * k)"
    using assms by (simp add: min_son_def vcost_def)
  then show ?thesis
    using assms by (subst MkzDownQueue_loop.simps) (simp add: Let_def)
qed

lemma MkzDownQueue_loop_rule:
  assumes step: "\<And>col cost adr k j. P col cost adr k \<Longrightarrow> 1 \<le> k \<Longrightarrow> 2 * k \<le> n \<Longrightarrow>
            j = min_son n cost k \<Longrightarrow> cost j < cost k \<Longrightarrow>
            P (col \<circ> swp k j) (cost \<circ> swp k j) (adr(col j := k, col k := j)) j"
    and bound: "\<And>col cost adr k. P col cost adr k \<Longrightarrow> \<forall>i. 1 \<le> i \<and> i \<le> n \<longrightarrow> col i < m"
    and init: "P (vcol Q k dj) (vcost Q k cnt) (vadr A k dj) k"
    and k: "1 \<le> k"
    and len: "2 * n + 2 \<le> length Q" "length A = m" "Q ! 0 = n"
  shows "\<exists>Q' A' k'. MkzDownQueue_loop Q A k cnt = Some (Q', A', k') \<and>
         P (vcol Q' k' dj) (vcost Q' k' cnt) (vadr A' k' dj) k' \<and>
         length Q' = length Q \<and> length A' = length A \<and> Q' ! 0 = Q ! 0 \<and> k \<le> k' \<and>
         (k' \<le> n \<or> k' = k) \<and>
         (\<forall>i. 2 \<le> i \<and> i \<le> n \<and> i div 2 = k' \<longrightarrow> cnt \<le> MkzGet Q' i (Suc 0))"
  using init k len
proof (induction "n - k" arbitrary: Q A k rule: less_induct)
  case less
  note unf = MkzDownQueue_loop_unfold [OF less.prems(2) less.prems(5), of A cnt]
  show ?case
  proof (cases "2 * k \<le> n")
    case False
    then have r: "MkzDownQueue_loop Q A k cnt = Some (Q, A, k)" using unf by simp
    have "\<forall>i. 2 \<le> i \<and> i \<le> n \<and> i div 2 = k \<longrightarrow> cnt \<le> MkzGet Q i (Suc 0)"
      using False by auto
    then show ?thesis using r less.prems(1) by simp
  next
    case True
    let ?j = "min_son n (vcost Q k cnt) k"
    have jn: "?j \<le> n" and jk: "?j div 2 = k"
      using min_son_cases(2,3) [OF True] by simp_all
    have jgt: "k < ?j" "?j \<noteq> k" "1 \<le> ?j"
      using min_son_cases(1) [OF True, of "vcost Q k cnt"] less.prems(2) by auto
    have jmin: "\<And>i. i \<le> n \<Longrightarrow> i div 2 = k \<Longrightarrow> vcost Q k cnt ?j \<le> vcost Q k cnt i"
      using min_son_cases(4) [OF True] by simp
    show ?thesis
    proof (cases "cnt \<le> MkzGet Q ?j (Suc 0)")
      case le: True
      then have r: "MkzDownQueue_loop Q A k cnt = Some (Q, A, k)" using unf True by simp
      have "\<forall>i. 2 \<le> i \<and> i \<le> n \<and> i div 2 = k \<longrightarrow> cnt \<le> MkzGet Q i (Suc 0)"
      proof (intro allI impI)
        fix i assume i: "2 \<le> i \<and> i \<le> n \<and> i div 2 = k"
        then have "i \<noteq> k" by auto
        then show "cnt \<le> MkzGet Q i (Suc 0)"
          using jmin [of i] i le jgt by (simp add: vcost_def)
      qed
      then show ?thesis using r less.prems(1) True by simp
    next
      case gt: False
      let ?Q1 = "fst (MkzAssign Q A k ?j)" and ?A1 = "snd (MkzAssign Q A k ?j)"
      have r: "MkzDownQueue_loop Q A k cnt = MkzDownQueue_loop ?Q1 ?A1 ?j cnt"
        using unf True gt by simp
      have k1: "1 \<le> k" "2 * k + 1 < length Q" "?j \<noteq> k"
        using less.prems(2,3) True jgt by auto
      have "vcol Q k dj ?j < m" using bound [OF less.prems(1)] jn jgt by blast
      then have pA: "MkzGet Q ?j 0 < length A" using jgt less.prems(4) by (simp add: vcol_def)
      have lt: "vcost Q k cnt ?j < vcost Q k cnt k" using gt jgt by (simp add: vcost_def)
      have P1: "P (vcol ?Q1 ?j dj) (vcost ?Q1 ?j cnt) (vadr ?A1 ?j dj) ?j"
        using step [OF less.prems(1) k1(1) True refl lt]
        by (simp add: vcol_MkzAssign [OF k1] vcost_MkzAssign [OF k1] vadr_MkzAssign [OF k1 pA])
      have eqs: "length ?Q1 = length Q" "length ?A1 = length A" "?Q1 ! 0 = Q ! 0"
        by (simp_all add: MkzAssign_facts [OF k1])
      have m: "n - ?j < n - k" using jgt jn by auto
      have l1: "2 * n + 2 \<le> length ?Q1" "length ?A1 = m" "?Q1 ! 0 = n"
        using less.prems(3,4,5) eqs by simp_all
      obtain Q' A' k' where ih: "MkzDownQueue_loop ?Q1 ?A1 ?j cnt = Some (Q', A', k')"
         "P (vcol Q' k' dj) (vcost Q' k' cnt) (vadr A' k' dj) k'"
         "length Q' = length ?Q1" "length A' = length ?A1" "Q' ! 0 = ?Q1 ! 0" "?j \<le> k'"
         "k' \<le> n \<or> k' = ?j"
         "\<forall>i. 2 \<le> i \<and> i \<le> n \<and> i div 2 = k' \<longrightarrow> cnt \<le> MkzGet Q' i (Suc 0)"
        using less.hyps [OF m P1 jgt(3) l1] by blast
      have "k \<le> k'" "k' \<le> n \<or> k' = k" using ih(6,7) jgt jn by auto
      then show ?thesis using r ih unfolding eqs by simp
    qed
  qed
qed

subsection \<open>From the loops to \<^verbatim>\<open>MkzUpdate\<close>\<close>

lemma view_inv_swap:
  assumes v: "view_inv n m C D col cost adr" and a: "1 \<le> a" "a \<le> n" "1 \<le> b" "b \<le> n"
    and n: "n < MKZ_INF"
  shows "view_inv n m C D (col \<circ> swp a b) (cost \<circ> swp a b) (adr(col b := a, col a := b))"
proof -
  have b: "bij_on n m col adr" using v by (simp add: view_inv_def)
  have ca: "adr (col a) = a" "adr (col b) = b" "col a < m" "col b < m"
    using b a by (simp_all add: bij_on_def)
  have c: "\<forall>i. 1 \<le> i \<and> i \<le> n \<longrightarrow> (cost \<circ> swp a b) i = C ((col \<circ> swp a b) i)"
    using v a by (simp add: view_inv_def swp_def)
  have d: "\<forall>c<m. ((adr(col b := a, col a := b)) c = MKZ_INF) = D c"
  proof (intro allI impI)
    fix c assume c: "c < m"
    have "D (col a) = (a = MKZ_INF)" "D (col b) = (b = MKZ_INF)"
      using v ca by (auto simp: view_inv_def)
    then have "\<not> D (col a)" "\<not> D (col b)" using a n by auto
    moreover have "(adr c = MKZ_INF) = D c" using v c by (simp add: view_inv_def)
    ultimately show "((adr(col b := a, col a := b)) c = MKZ_INF) = D c"
      using a n by auto
  qed
  show ?thesis
    unfolding view_inv_def using bij_on_swap [OF b a] c d by simp
qed

lemma vcol_initial: "vcol Q k (MkzGet Q k 0) = qcol Q"
  by (auto simp: vcol_def qcol_def fun_eq_iff)

lemma vcost_initial: "vcost Q k (MkzGet Q k (Suc 0)) = qcost Q"
  by (auto simp: vcost_def qcost_def fun_eq_iff)

lemma vadr_initial: "A ! dj = k \<Longrightarrow> vadr A k dj = nth A"
  by (auto simp: vadr_def fun_eq_iff)

lemma place_view:
  assumes "2 * k + 1 < length Q" "dj < length A"
  shows "qcol (MkzSet (MkzSet Q k 0 dj) k 1 cnt) = vcol Q k dj"
    and "qcost (MkzSet (MkzSet Q k 0 dj) k 1 cnt) = vcost Q k cnt"
    and "nth (A[dj := k]) = vadr A k dj"
  using assms
  by (auto simp: qcol_def qcost_def vcol_def vcost_def vadr_def MkzGet_MkzSet fun_eq_iff
      nth_list_update)

lemma up_P_step:
  assumes n: "n < MKZ_INF" and p: "up_P n m C D H col cost adr k"
    and k: "1 < k" and le: "cost k \<le> cost (k div 2)"
  shows "up_P n m C D H (col \<circ> swp k (k div 2)) (cost \<circ> swp k (k div 2))
              (adr(col (k div 2) := k, col k := k div 2)) (k div 2)"
proof -
  have kk: "1 \<le> k" "k \<le> n" "1 \<le> k div 2" "k div 2 \<le> n"
    using p k by (auto simp: up_P_def)
  have v: "view_inv n m C D col cost adr" using p by (simp add: up_P_def)
  have "H \<longrightarrow> up_inv n (cost \<circ> swp k (k div 2)) (k div 2)"
    using up_inv_swap [OF _ k kk(2) le] p by (simp add: up_P_def)
  then show ?thesis
    unfolding up_P_def using view_inv_swap [OF v kk n] kk by simp
qed

lemma up_P_bound:
  assumes "up_P n m C D H col cost adr k"
  shows "k \<le> n \<and> (\<forall>i. 1 \<le> i \<and> i \<le> n \<longrightarrow> col i < m)"
  using assms by (simp add: up_P_def view_inv_def bij_on_def)

lemma down_P_step:
  assumes n: "n < MKZ_INF" and p: "down_P n m C D H col cost adr k"
    and k: "1 \<le> k" "2 * k \<le> n" and j: "j = min_son n cost k" and lt: "cost j < cost k"
  shows "down_P n m C D H (col \<circ> swp k j) (cost \<circ> swp k j) (adr(col j := k, col k := j)) j"
proof -
  have jj: "j \<le> n" "1 \<le> j" "k \<le> n"
    using min_son_cases(1,2) [OF k(2), of cost] j k by auto
  have v: "view_inv n m C D col cost adr" using p by (simp add: down_P_def)
  have "H \<longrightarrow> down_inv n (cost \<circ> swp k j) j"
    using down_inv_swap [OF _ k j lt] p by (simp add: down_P_def)
  then show ?thesis
    unfolding down_P_def using view_inv_swap [OF v k(1) jj(3) jj(2) jj(1) n] jj by simp
qed

lemma down_P_bound:
  assumes "down_P n m C D H col cost adr k"
  shows "\<forall>i. 1 \<le> i \<and> i \<le> n \<longrightarrow> col i < m"
  using assms by (simp add: down_P_def view_inv_def bij_on_def)

lemma MkzUpQueue_rule:
  assumes v: "view_inv n m C D (qcol Q) (qcost Q) (nth A)"
    and k: "1 \<le> k" "k \<le> n"
    and len: "2 * n + 2 \<le> length Q" "length A = m" "Q ! 0 = n" "n < MKZ_INF"
    and h: "H \<longrightarrow> up_inv n (qcost Q) k"
    and res: "MkzUpQueue Q A k = (Qf, Af)"
  shows "view_inv n m C D (qcol Qf) (qcost Qf) (nth Af) \<and>
         length Qf = length Q \<and> length Af = m \<and> Qf ! 0 = n \<and>
         (H \<longrightarrow> heap_fn n (qcost Qf)) \<and> Af ! (MkzGet Q k 0) \<le> k \<and>
         (1 < k \<and> qcost Q k \<le> qcost Q (k div 2) \<longrightarrow> Af ! (MkzGet Q k 0) < k)"
proof -
  let ?dj = "MkzGet Q k 0" and ?cnt = "MkzGet Q k (Suc 0)"
  obtain Q' A' k' where loop: "MkzUpQueue_loop Q A k ?cnt = (Q', A', k')"
    by (cases "MkzUpQueue_loop Q A k ?cnt") auto
  have b: "bij_on n m (qcol Q) (nth A)" using v by (simp add: view_inv_def)
  have dj: "?dj < m" "A ! ?dj = k" using b k by (simp_all add: bij_on_def qcol_def)
  have init: "up_P n m C D H (vcol Q k ?dj) (vcost Q k ?cnt) (vadr A k ?dj) k"
    using v k h dj by (simp add: up_P_def vcol_initial vcost_initial vadr_initial)
  have r: "up_P n m C D H (vcol Q' k' ?dj) (vcost Q' k' ?cnt) (vadr A' k' ?dj) k' \<and>
         length Q' = length Q \<and> length A' = length A \<and> Q' ! 0 = Q ! 0 \<and> k' \<le> k \<and>
         (k' \<le> 1 \<or> vcost Q' k' ?cnt (k' div 2) < ?cnt) \<and>
         (1 < k \<and> ?cnt \<le> MkzGet Q (k div 2) 1 \<longrightarrow> k' < k)"
    by (rule MkzUpQueue_loop_rule [of "up_P n m C D H" n m, OF up_P_step [OF len(4)] up_P_bound
          init len(1,2) loop])
  have k': "1 \<le> k'" "2 * k' + 1 < length Q'" "?dj < length A'"
    using r len dj by (auto simp: up_P_def)
  have Qf: "Qf = MkzSet (MkzSet Q' k' 0 ?dj) k' 1 ?cnt" and Af: "Af = A'[?dj := k']"
    using res loop by (simp_all add: MkzUpQueue_def Let_def)
  have views: "qcol Qf = vcol Q' k' ?dj" "qcost Qf = vcost Q' k' ?cnt" "nth Af = vadr A' k' ?dj"
    unfolding Qf Af using place_view [OF k'(2,3)] by simp_all
  have heap: "H \<longrightarrow> heap_fn n (qcost Qf)"
  proof
    assume H
    then have u: "up_inv n (vcost Q' k' ?cnt) k'" using r by (simp add: up_P_def)
    have "k' \<le> 1 \<or> vcost Q' k' ?cnt (k' div 2) < vcost Q' k' ?cnt k'"
      using r by (auto simp: vcost_def)
    then show "heap_fn n (qcost Qf)" unfolding views using up_inv_exit [OF u] by simp
  qed
  have pos: "Af ! ?dj = k'" unfolding Af using k'(3) by simp
  have "Qf ! 0 = n" unfolding Qf using r len k' by (simp add: MkzSet_nth0)
  moreover have "length Qf = length Q" "length Af = m" unfolding Qf Af using r len by simp_all
  moreover have "view_inv n m C D (qcol Qf) (qcost Qf) (nth Af)"
    unfolding views using r by (simp add: up_P_def)
  moreover have "Af ! ?dj \<le> k" unfolding pos using r by simp
  moreover have "1 < k \<and> qcost Q k \<le> qcost Q (k div 2) \<longrightarrow> Af ! ?dj < k"
    unfolding pos using r by (simp add: qcost_def)
  ultimately show ?thesis using heap by simp
qed

lemma MkzDownQueue_rule:
  assumes v: "view_inv n m C D (qcol Q) (qcost Q) (nth A)"
    and k: "1 \<le> k" "k \<le> n"
    and len: "2 * n + 2 \<le> length Q" "length A = m" "Q ! 0 = n" "n < MKZ_INF"
    and h: "H \<longrightarrow> down_inv n (qcost Q) k"
  shows "\<exists>Qf Af. MkzDownQueue Q A k = Some (Qf, Af) \<and>
         view_inv n m C D (qcol Qf) (qcost Qf) (nth Af) \<and>
         length Qf = length Q \<and> length Af = m \<and> Qf ! 0 = n \<and>
         (H \<longrightarrow> heap_fn n (qcost Qf)) \<and> k \<le> Af ! (MkzGet Q k 0)"
proof -
  let ?dj = "MkzGet Q k 0" and ?cnt = "MkzGet Q k (Suc 0)"
  have b: "bij_on n m (qcol Q) (nth A)" using v by (simp add: view_inv_def)
  have dj: "?dj < m" "A ! ?dj = k" using b k by (simp_all add: bij_on_def qcol_def)
  have init: "down_P n m C D H (vcol Q k ?dj) (vcost Q k ?cnt) (vadr A k ?dj) k"
    using v k h dj by (simp add: down_P_def vcol_initial vcost_initial vadr_initial)
  have "\<exists>Q' A' k'. MkzDownQueue_loop Q A k ?cnt = Some (Q', A', k') \<and>
         down_P n m C D H (vcol Q' k' ?dj) (vcost Q' k' ?cnt) (vadr A' k' ?dj) k' \<and>
         length Q' = length Q \<and> length A' = length A \<and> Q' ! 0 = Q ! 0 \<and> k \<le> k' \<and>
         (k' \<le> n \<or> k' = k) \<and>
         (\<forall>i. 2 \<le> i \<and> i \<le> n \<and> i div 2 = k' \<longrightarrow> ?cnt \<le> MkzGet Q' i (Suc 0))"
    by (rule MkzDownQueue_loop_rule [of "down_P n m C D H" n m, OF down_P_step [OF len(4)]
          down_P_bound init k(1) len(1,2,3)])
  then obtain Q' A' k' where loop: "MkzDownQueue_loop Q A k ?cnt = Some (Q', A', k')"
    and P: "down_P n m C D H (vcol Q' k' ?dj) (vcost Q' k' ?cnt) (vadr A' k' ?dj) k'"
    and eqs: "length Q' = length Q" "length A' = length A" "Q' ! 0 = Q ! 0"
    and kk: "k \<le> k'"
    and ex: "\<forall>i. 2 \<le> i \<and> i \<le> n \<and> i div 2 = k' \<longrightarrow> ?cnt \<le> MkzGet Q' i (Suc 0)"
    by blast
  let ?Qf = "MkzSet (MkzSet Q' k' 0 ?dj) k' 1 ?cnt" and ?Af = "A'[?dj := k']"
  have k': "1 \<le> k'" "2 * k' + 1 < length Q'" "?dj < length A'"
    using P eqs len dj by (auto simp: down_P_def)
  have res: "MkzDownQueue Q A k = Some (?Qf, ?Af)"
    using loop by (simp add: MkzDownQueue_def Let_def)
  have views: "qcol ?Qf = vcol Q' k' ?dj" "qcost ?Qf = vcost Q' k' ?cnt" "nth ?Af = vadr A' k' ?dj"
    using place_view [OF k'(2,3)] by simp_all
  have heap: "H \<longrightarrow> heap_fn n (qcost ?Qf)"
  proof
    assume H
    then have d: "down_inv n (vcost Q' k' ?cnt) k'" using P by (simp add: down_P_def)
    have "\<forall>i. 2 \<le> i \<and> i \<le> n \<and> i div 2 = k' \<longrightarrow> vcost Q' k' ?cnt k' \<le> vcost Q' k' ?cnt i"
      using ex by (auto simp: vcost_def)
    then show "heap_fn n (qcost ?Qf)" unfolding views by (rule down_inv_exit [OF d])
  qed
  have pos: "?Af ! ?dj = k'" using k'(3) by simp
  have "?Qf ! 0 = n" using eqs len k' by (simp add: MkzSet_nth0)
  moreover have "length ?Qf = length Q" "length ?Af = m" using eqs len by simp_all
  moreover have "view_inv n m C D (qcol ?Qf) (qcost ?Qf) (nth ?Af)"
    unfolding views using P by (simp add: down_P_def)
  moreover have "k \<le> ?Af ! ?dj" unfolding pos using kk .
  ultimately show ?thesis using heap res by blast
qed

text \<open>
  The state in which MkzMoveUpOrDown is called: the costs form a heap as soon as the cost
  in slot k is put back to some value v0.
\<close>

lemma MkzMoveUpOrDown_rule:
  assumes v: "view_inv n m C D (qcol Q) (qcost Q) (nth A)"
    and k: "1 \<le> k" "k \<le> n"
    and len: "2 * n + 2 \<le> length Q" "length A = m" "Q ! 0 = n" "n < MKZ_INF"
    and h: "H \<longrightarrow> heap_fn n ((qcost Q)(k := v0))"
  shows "\<exists>Qf Af. MkzMoveUpOrDown Q A k = Some (Qf, Af) \<and>
         view_inv n m C D (qcol Qf) (qcost Qf) (nth Af) \<and>
         length Qf = length Q \<and> length Af = m \<and> Qf ! 0 = n \<and>
         (H \<longrightarrow> heap_fn n (qcost Qf)) \<and>
         (if k \<noteq> 1 \<and> qcost Q k < qcost Q (k div 2)
          then Some (Qf, Af) = Some (MkzUpQueue Q A k) \<and> Af ! (MkzGet Q k 0) < k
          else Some (Qf, Af) = MkzDownQueue Q A k \<and> k \<le> Af ! (MkzGet Q k 0))"
proof (cases "k \<noteq> 1 \<and> qcost Q k < qcost Q (k div 2)")
  case True
  then have k2: "2 \<le> k" "k div 2 \<noteq> k" using k by auto
  obtain Qf Af where res: "MkzUpQueue Q A k = (Qf, Af)" by (cases "MkzUpQueue Q A k") auto
  have m: "MkzMoveUpOrDown Q A k = Some (Qf, Af)"
    using True res by (simp add: MkzMoveUpOrDown_def qcost_def)
  have same: "((qcost Q)(k := v0))(k := qcost Q k) = qcost Q" by (simp add: fun_eq_iff)
  have u: "H \<longrightarrow> up_inv n (qcost Q) k"
  proof
    assume H
    then have hp: "heap_fn n ((qcost Q)(k := v0))" using h by simp
    have lt: "qcost Q k < ((qcost Q)(k := v0)) (k div 2)" using True k2 by simp
    have "up_inv n (((qcost Q)(k := v0))(k := qcost Q k)) k"
      using hp k2(1) k(2) lt by (rule heap_fn_up_inv)
    then show "up_inv n (qcost Q) k" by (simp only: same)
  qed
  have "1 < k \<and> qcost Q k \<le> qcost Q (k div 2)" using True k2 by simp
  then show ?thesis
    using MkzUpQueue_rule [OF v k len u res] m True res by simp
next
  case False
  have m: "MkzMoveUpOrDown Q A k = MkzDownQueue Q A k"
    using False by (auto simp: MkzMoveUpOrDown_def qcost_def)
  have same: "((qcost Q)(k := v0))(k := qcost Q k) = qcost Q" by (simp add: fun_eq_iff)
  have d: "H \<longrightarrow> down_inv n (qcost Q) k"
  proof
    assume H
    then have hp: "heap_fn n ((qcost Q)(k := v0))" using h by simp
    have "k = 1 \<or> ((qcost Q)(k := v0)) (k div 2) \<le> qcost Q k"
      using False k by (cases "k = 1") auto
    then have "down_inv n (((qcost Q)(k := v0))(k := qcost Q k)) k"
      by (rule heap_fn_down_inv [OF hp k])
    then show "down_inv n (qcost Q) k" by (simp only: same)
  qed
  show ?thesis
    using MkzDownQueue_rule [OF v k len d] m False by auto
qed

lemma bijection_inv_iff:
  "bijection_inv Q A \<longleftrightarrow> bij_on (Q ! 0) (length A) (qcol Q) (nth A)"
  by (auto simp: bijection_inv_def bij_on_def qcol_def MkzIsAlive_def)

lemma heap_inv_iff: "heap_inv Q \<longleftrightarrow> heap_fn (Q ! 0) (qcost Q)"
proof
  assume h: "heap_inv Q"
  show "heap_fn (Q ! 0) (qcost Q)"
    unfolding heap_fn_def
  proof (intro allI impI)
    fix i assume i: "2 \<le> i \<and> i \<le> Q ! 0"
    let ?k = "i div 2"
    have k: "?k \<in> {1..Q ! 0}" using i by auto
    have "i = 2 * ?k \<or> i = 2 * ?k + 1" by auto
    then show "qcost Q ?k \<le> qcost Q i"
    proof
      assume e: "i = 2 * ?k"
      then have "2 * ?k \<le> Q ! 0" using i by simp
      then have "MkzGet Q ?k 1 \<le> MkzGet Q (2 * ?k) 1"
        using h k unfolding heap_inv_def by blast
      then show ?thesis using e by (simp add: qcost_def)
    next
      assume e: "i = 2 * ?k + 1"
      then have "2 * ?k + 1 \<le> Q ! 0" using i by simp
      then have "MkzGet Q ?k 1 \<le> MkzGet Q (2 * ?k + 1) 1"
        using h k unfolding heap_inv_def by blast
      then show ?thesis using e by (simp add: qcost_def)
    qed
  qed
next
  assume h: "heap_fn (Q ! 0) (qcost Q)"
  show "heap_inv Q"
    unfolding heap_inv_def
  proof (intro ballI conjI impI)
    fix k assume k: "k \<in> {1..Q ! 0}"
    {
      assume "2 * k \<le> Q ! 0"
      then have "qcost Q ((2 * k) div 2) \<le> qcost Q (2 * k)"
        using h k unfolding heap_fn_def by (metis atLeastAtMost_iff mult_le_mono2 nat_mult_1_right)
      then show "MkzGet Q k 1 \<le> MkzGet Q (2 * k) 1" by (simp add: qcost_def)
    }
    {
      assume "2 * k + 1 \<le> Q ! 0"
      moreover have "2 \<le> 2 * k + 1" using k by simp
      ultimately have "qcost Q ((2 * k + 1) div 2) \<le> qcost Q (2 * k + 1)"
        using h unfolding heap_fn_def by blast
      then show "MkzGet Q k 1 \<le> MkzGet Q (2 * k + 1) 1" by (simp add: qcost_def)
    }
  qed
qed

lemma MkzUpdate_rule:
  assumes inv: "queue_inv mat" and j: "j < length (MKZA mat)" and alive: "MkzIsAlive (MKZA mat) j"
    and h: "H \<longrightarrow> heap_inv (MKZQ mat)"
  shows "\<exists>Q' A'. MkzUpdate mat j = Some (Inr (mat\<lparr>MKZQ := Q', MKZA := A'\<rparr>)) \<and>
     MkzMoveUpOrDown (MkzSet (MKZQ mat) (MKZA mat ! j) 1 (nat (MkzCount mat j)))
       (MKZA mat) (MKZA mat ! j) = Some (Q', A') \<and>
     queue_wf Q' \<and> bijection_inv Q' A' \<and>
     length Q' = length (MKZQ mat) \<and> length A' = length (MKZA mat) \<and> Q' ! 0 = MKZQ mat ! 0 \<and>
     (\<forall>c<length (MKZA mat). MkzIsAlive A' c = MkzIsAlive (MKZA mat) c) \<and>
     (\<forall>c<length (MKZA mat). MkzIsAlive (MKZA mat) c \<longrightarrow>
        MkzGet Q' (A' ! c) 1
        = (if c = j then nat (MkzCount mat j) else MkzGet (MKZQ mat) (MKZA mat ! c) 1)) \<and>
     (H \<longrightarrow> heap_inv Q') \<and>
     (if MKZA mat ! j \<noteq> 1 \<and>
         nat (MkzCount mat j) < MkzGet (MKZQ mat) (MKZA mat ! j div 2) 1
      then (Q', A') = MkzUpQueue (MkzSet (MKZQ mat) (MKZA mat ! j) 1 (nat (MkzCount mat j)))
                        (MKZA mat) (MKZA mat ! j) \<and> A' ! j < MKZA mat ! j
      else Some (Q', A') = MkzDownQueue (MkzSet (MKZQ mat) (MKZA mat ! j) 1 (nat (MkzCount mat j)))
                        (MKZA mat) (MKZA mat ! j) \<and> MKZA mat ! j \<le> A' ! j)"
proof -
  let ?Q = "MKZQ mat" and ?A = "MKZA mat"
  let ?n = "?Q ! 0" and ?m = "length ?A" and ?adr = "?A ! j" and ?mkz = "nat (MkzCount mat j)"
  let ?Q1 = "MkzSet ?Q ?adr 1 ?mkz"
  let ?C = "\<lambda>c. if c = j then ?mkz else MkzGet ?Q (?A ! c) (Suc 0)"
  let ?D = "\<lambda>c. ?A ! c = MKZ_INF"
  have wf: "2 * ?n + 2 \<le> length ?Q" "?n < MKZ_INF"
    using inv by (simp_all add: queue_inv_def queue_wf_def)
  have b: "bij_on ?n ?m (qcol ?Q) (nth ?A)"
    using inv by (simp add: queue_inv_def bijection_inv_iff)
  have al: "?adr \<noteq> MKZ_INF" using alive by (simp add: MkzIsAlive_def)
  have adr: "1 \<le> ?adr" "?adr \<le> ?n" "qcol ?Q ?adr = j"
    using b j al unfolding bij_on_def by blast+
  have inb: "2 * ?adr + 1 < length ?Q" using adr wf by simp
  have col1: "qcol ?Q1 = qcol ?Q"
    using inb by (simp add: qcol_def MkzGet_MkzSet fun_eq_iff)
  have cost1: "qcost ?Q1 = (qcost ?Q)(?adr := ?mkz)"
    using inb by (simp add: qcost_def MkzGet_MkzSet fun_eq_iff)
  have n1: "?Q1 ! 0 = ?n" using adr by (simp add: MkzSet_nth0)
  have len1: "2 * ?n + 2 \<le> length ?Q1" using wf by simp
  have cC: "\<forall>i. 1 \<le> i \<and> i \<le> ?n \<longrightarrow> ((qcost ?Q)(?adr := ?mkz)) i = ?C (qcol ?Q i)"
  proof (intro allI impI)
    fix i assume i: "1 \<le> i \<and> i \<le> ?n"
    then have ai: "?A ! (qcol ?Q i) = i" using b by (simp add: bij_on_def)
    then have "(qcol ?Q i = j) = (i = ?adr)" using adr by auto
    then show "((qcost ?Q)(?adr := ?mkz)) i = ?C (qcol ?Q i)"
      using ai by (simp add: qcost_def)
  qed
  have v: "view_inv ?n ?m ?C ?D (qcol ?Q1) (qcost ?Q1) (nth ?A)"
    unfolding view_inv_def col1 cost1 using b cC by simp
  have hh: "H \<longrightarrow> heap_fn ?n ((qcost ?Q1)(?adr := qcost ?Q ?adr))"
    unfolding cost1 using h by (simp add: heap_inv_iff)
  from MkzMoveUpOrDown_rule [OF v adr(1,2) len1 refl n1 wf(2) hh]
  obtain Qf Af where m: "MkzMoveUpOrDown ?Q1 ?A ?adr = Some (Qf, Af)"
    and vf: "view_inv ?n ?m ?C ?D (qcol Qf) (qcost Qf) (nth Af)"
    and lens: "length Qf = length ?Q1" "length Af = ?m" "Qf ! 0 = ?n"
    and hf: "H \<longrightarrow> heap_fn ?n (qcost Qf)"
    and dir: "if ?adr \<noteq> 1 \<and> qcost ?Q1 ?adr < qcost ?Q1 (?adr div 2)
          then Some (Qf, Af) = Some (MkzUpQueue ?Q1 ?A ?adr) \<and> Af ! (MkzGet ?Q1 ?adr 0) < ?adr
          else Some (Qf, Af) = MkzDownQueue ?Q1 ?A ?adr \<and> ?adr \<le> Af ! (MkzGet ?Q1 ?adr 0)"
    by blast
  have upd: "MkzUpdate mat j = Some (Inr (mat\<lparr>MKZQ := Qf, MKZA := Af\<rparr>))"
    using al m by (simp add: MkzUpdate_def Let_def)
  have bf: "bij_on ?n ?m (qcol Qf) (nth Af)" using vf by (simp add: view_inv_def)
  have f1: "queue_wf Qf" using wf lens by (simp add: queue_wf_def)
  have f2: "bijection_inv Qf Af" using bf lens by (simp add: bijection_inv_iff)
  have f3: "\<forall>c<?m. MkzIsAlive Af c = MkzIsAlive ?A c"
    using vf by (simp add: view_inv_def MkzIsAlive_def)
  have f4: "\<forall>c<?m. MkzIsAlive ?A c \<longrightarrow>
        MkzGet Qf (Af ! c) 1 = (if c = j then ?mkz else MkzGet ?Q (?A ! c) 1)"
  proof (intro allI impI)
    fix c assume c: "c < ?m" and a: "MkzIsAlive ?A c"
    then have "Af ! c \<noteq> MKZ_INF" using vf by (simp add: view_inv_def MkzIsAlive_def)
    then have p: "1 \<le> Af ! c" "Af ! c \<le> ?n" "qcol Qf (Af ! c) = c"
      using bf c unfolding bij_on_def by blast+
    then have "qcost Qf (Af ! c) = ?C (qcol Qf (Af ! c))"
      using vf unfolding view_inv_def by blast
    then show "MkzGet Qf (Af ! c) 1 = (if c = j then ?mkz else MkzGet ?Q (?A ! c) 1)"
      using p by (simp add: qcost_def)
  qed
  have f5: "H \<longrightarrow> heap_inv Qf" using hf lens by (simp add: heap_inv_iff)
  have f6: "if ?adr \<noteq> 1 \<and> ?mkz < MkzGet ?Q (?adr div 2) 1
      then (Qf, Af) = MkzUpQueue ?Q1 ?A ?adr \<and> Af ! j < ?adr
      else Some (Qf, Af) = MkzDownQueue ?Q1 ?A ?adr \<and> ?adr \<le> Af ! j"
  proof -
    have "MkzGet ?Q1 ?adr 0 = qcol ?Q1 ?adr" by (simp add: qcol_def)
    then have "MkzGet ?Q1 ?adr 0 = j" unfolding col1 using adr by simp
    moreover have "qcost ?Q1 ?adr = ?mkz" unfolding cost1 by simp
    moreover have "?adr \<noteq> 1 \<longrightarrow> qcost ?Q1 (?adr div 2) = MkzGet ?Q (?adr div 2) 1"
      unfolding cost1 using adr by (auto simp: qcost_def)
    ultimately show ?thesis using dir by auto
  qed
  have f7: "length Qf = length ?Q" "length Af = ?m" "Qf ! 0 = ?n" using lens by simp_all
  show ?thesis
    by (intro exI [of _ Qf] exI [of _ Af] conjI) (fact upd m f1 f2 f3 f4 f5 f6 f7)+
qed


subsection \<open>A heap that needs no repair; the columns in the queue\<close>

lemma MkzCount_queue_update [simp]:
  "MkzCount (mat\<lparr>MKZQ := Q, MKZA := A\<rparr>) j = MkzCount mat j"
proof -
  let ?mat' = "mat\<lparr>MKZQ := Q, MKZA := A\<rparr>"
  have p: "pureMkz ?mat' j = pureMkz mat j" by (simp add: pureMkz_def Let_def)
  have c: "Cavallar ?mat' j = Cavallar mat j" by (simp add: Cavallar_def)
  have l: "lightColAndMkz ?mat' j = lightColAndMkz mat j" by (simp add: lightColAndMkz_def Let_def p)
  show ?thesis by (cases "mkztype mat") (simp_all add: MkzCount_def p c l)
qed

lemma min_son_bounds:
  assumes t: "2 * k \<le> n" and k: "1 \<le> k"
  shows "2 \<le> min_son n cost k" "min_son n cost k \<le> n" "min_son n cost k div 2 = k"
proof -
  show "min_son n cost k \<le> n" "min_son n cost k div 2 = k"
    using min_son_cases(2,3) [OF t, of cost] by simp_all
  show "2 \<le> min_son n cost k"
    using min_son_cases(1) [OF t, of cost] k by linarith
qed

lemma MkzDownQueue_loop_heap_id:
  assumes len: "Q ! 0 = n" and h: "heap_fn n (qcost Q)" and k: "1 \<le> k"
  shows "MkzDownQueue_loop Q A k (MkzGet Q k (Suc 0)) = Some (Q, A, k)"
proof -
  let ?cnt = "MkzGet Q k (Suc 0)"
  let ?j = "min_son n (vcost Q k ?cnt) k"
  have "2 * k \<le> n \<longrightarrow> ?cnt \<le> MkzGet Q ?j (Suc 0)"
  proof
    assume t: "2 * k \<le> n"
    note j = min_son_bounds [OF t k, of "vcost Q k ?cnt"]
    have "qcost Q (?j div 2) \<le> qcost Q ?j" using h j(1,2) unfolding heap_fn_def by blast
    then show "?cnt \<le> MkzGet Q ?j (Suc 0)" unfolding j(3) by (simp add: qcost_def)
  qed
  then show ?thesis by (simp add: MkzDownQueue_loop_unfold [OF k len])
qed

lemma MkzDownQueue_heap_id:
  assumes len: "Q ! 0 = n" and h: "heap_fn n (qcost Q)" and k: "1 \<le> k"
    and a: "A ! (MkzGet Q k 0) = k"
  shows "MkzDownQueue Q A k = Some (Q, A)"
proof -
  have loop: "MkzDownQueue_loop Q A k (MkzGet Q k 1) = Some (Q, A, k)"
    using MkzDownQueue_loop_heap_id [OF len h k, of A] by simp
  have q: "MkzSet (MkzSet Q k 0 (MkzGet Q k 0)) k (Suc 0) (MkzGet Q k (Suc 0)) = Q"
    by (simp add: MkzSet_def MkzGet_def)
  have "A[MkzGet Q k 0 := A ! (MkzGet Q k 0)] = A" by (rule list_update_id)
  then have p: "A[MkzGet Q k 0 := k] = A" by (simp only: a)
  show ?thesis
    unfolding MkzDownQueue_def Let_def loop by (simp add: q p)
qed

lemma MkzMoveUpOrDown_heap_id:
  assumes len: "Q ! 0 = n"
    and h: "heap_fn n (qcost Q)" and k: "1 \<le> k" "k \<le> n"
    and a: "A ! (MkzGet Q k 0) = k"
  shows "MkzMoveUpOrDown Q A k = Some (Q, A)"
proof (cases "k = 1")
  case True
  then show ?thesis
    using MkzDownQueue_heap_id [OF len h k(1) a] by (simp add: MkzMoveUpOrDown_def)
next
  case False
  then have "2 \<le> k" using k by simp
  then have "qcost Q (k div 2) \<le> qcost Q k" using h k by (simp add: heap_fn_def)
  then have "\<not> MkzGet Q (k div 2) 1 > MkzGet Q k 1" by (simp add: qcost_def)
  then show ?thesis
    using False MkzDownQueue_heap_id [OF len h k(1) a] by (simp add: MkzMoveUpOrDown_def)
qed

lemma queue_columns_alive:
  assumes "queue_wf Q" "bijection_inv Q A"
  shows "distinct (queue_columns Q)"
    and "set (queue_columns Q) = {c. c < length A \<and> MkzIsAlive A c}"
proof -
  let ?n = "Q ! 0"
  have b: "bij_on ?n (length A) (qcol Q) (nth A)" using assms by (simp add: bijection_inv_iff)
  have n: "?n < MKZ_INF" using assms by (simp add: queue_wf_def)
  have qc: "queue_columns Q = map (qcol Q) [1..<Suc ?n]"
    by (simp add: queue_columns_def qcol_def)
  have "inj_on (qcol Q) {1..<Suc ?n}"
    using bij_on_inj [OF b] by (auto simp: inj_on_def)
  then show "distinct (queue_columns Q)"
    unfolding qc distinct_map set_upt using distinct_upt by blast
  show "set (queue_columns Q) = {c. c < length A \<and> MkzIsAlive A c}"
  proof (intro set_eqI iffI)
    fix c assume "c \<in> set (queue_columns Q)"
    then obtain i where i: "1 \<le> i" "i \<le> ?n" "c = qcol Q i" unfolding qc by auto
    then have "c < length A" "A ! c = i" using b by (simp_all add: bij_on_def)
    then show "c \<in> {c. c < length A \<and> MkzIsAlive A c}"
      using i n by (simp add: MkzIsAlive_def)
  next
    fix c assume "c \<in> {c. c < length A \<and> MkzIsAlive A c}"
    then have c: "c < length A" "A ! c \<noteq> MKZ_INF" by (simp_all add: MkzIsAlive_def)
    then have p: "1 \<le> A ! c" "A ! c \<le> ?n" "qcol Q (A ! c) = c"
      using b unfolding bij_on_def by blast+
    then have "A ! c \<in> set [1..<Suc ?n]" by auto
    then have "qcol Q (A ! c) \<in> set (map (qcol Q) [1..<Suc ?n])"
      by (simp only: set_map) (rule imageI)
    then show "c \<in> set (queue_columns Q)" unfolding qc p(3) .
  qed
qed

lemma MkzUpdateN_rule:
  assumes "queue_inv mat" "\<forall>j \<in> set js. j < length (MKZA mat) \<and> MkzIsAlive (MKZA mat) j"
    and "H \<longrightarrow> heap_inv (MKZQ mat)"
  shows "\<exists>Q' A'. MkzUpdateN mat js = Some (Inr (mat\<lparr>MKZQ := Q', MKZA := A'\<rparr>)) \<and>
     MkzUpdateN_repair (MKZQ mat) (MKZA mat) (zip js (map (\<lambda>j. nat (MkzCount mat j)) js))
       = Some (Q', A') \<and>
     queue_wf Q' \<and> bijection_inv Q' A' \<and> (H \<longrightarrow> heap_inv Q')"
  using assms
proof (induction js arbitrary: mat)
  case Nil
  then show ?case by (simp add: queue_inv_def)
next
  case (Cons j js)
  have j: "j < length (MKZA mat)" "MkzIsAlive (MKZA mat) j" using Cons.prems(2) by simp_all
  from MkzUpdate_rule [OF Cons.prems(1) j Cons.prems(3)]
  obtain Q1 A1 where u: "MkzUpdate mat j = Some (Inr (mat\<lparr>MKZQ := Q1, MKZA := A1\<rparr>))"
    and m: "MkzMoveUpOrDown (MkzSet (MKZQ mat) (MKZA mat ! j) 1 (nat (MkzCount mat j)))
       (MKZA mat) (MKZA mat ! j) = Some (Q1, A1)"
    and inv1: "queue_wf Q1" "bijection_inv Q1 A1"
    and len1: "length A1 = length (MKZA mat)"
    and al1: "\<forall>c<length (MKZA mat). MkzIsAlive A1 c = MkzIsAlive (MKZA mat) c"
    and h1: "H \<longrightarrow> heap_inv Q1"
    by blast
  let ?mat1 = "mat\<lparr>MKZQ := Q1, MKZA := A1\<rparr>"
  have p1: "queue_inv ?mat1" using inv1 by (simp add: queue_inv_def)
  have p2: "\<forall>j \<in> set js. j < length (MKZA ?mat1) \<and> MkzIsAlive (MKZA ?mat1) j"
    using Cons.prems(2) len1 al1 by simp
  have p3: "H \<longrightarrow> heap_inv (MKZQ ?mat1)" using h1 by simp
  from Cons.IH [OF p1 p2 p3]
  obtain Q' A' where r: "MkzUpdateN ?mat1 js = Some (Inr (?mat1\<lparr>MKZQ := Q', MKZA := A'\<rparr>))"
    and rp: "MkzUpdateN_repair (MKZQ ?mat1) (MKZA ?mat1)
               (zip js (map (\<lambda>j. nat (MkzCount ?mat1 j)) js)) = Some (Q', A')"
    and inv': "queue_wf Q'" "bijection_inv Q' A'" "H \<longrightarrow> heap_inv Q'"
    by blast
  have "MkzUpdateN mat (j # js) = Some (Inr (mat\<lparr>MKZQ := Q', MKZA := A'\<rparr>))"
    using u r by simp
  moreover have "MkzUpdateN_repair (MKZQ mat) (MKZA mat)
      (zip (j # js) (map (\<lambda>j. nat (MkzCount mat j)) (j # js))) = Some (Q', A')"
    using m rp by (simp add: Let_def)
  ultimately show ?case using inv' by blast
qed


section \<open>The concrete matrices, evaluated\<close>

lemmas ex_eval_defs =
  MkzUpdate_def MkzMoveUpOrDown_def MkzDownQueue_def MkzDownQueue_loop.simps MkzUpQueue_def
  MkzUpQueue_loop.simps MkzAssign_def MkzCount_def Cavallar_def MKZ_INF_def MkzGet_def MkzSet_def
  Let_def nth_Cons' list_update_code

lemmas ex_inv_defs =
  queue_inv_def queue_wf_def bijection_inv_def heap_inv_def MKZ_INF_def MkzGet_def
  MkzIsAlive_def atLeastAtMost_upt atLeastLessThan_upt upt_rec nth_Cons'

lemma ex_queue_inv:
  "queue_inv ex_queue" "heap_inv (MKZQ ex_queue)"
  "0 < length (MKZA ex_queue)" "MkzIsAlive (MKZA ex_queue) 0"
  by (simp_all add: ex_queue_def ex_inv_defs)

lemma ex_queue_update: "MkzUpdate ex_queue 0 = Some (Inr ex_queue_after)"
  by (simp add: ex_queue_after_def ex_queue_def ex_eval_defs)

lemma ex_queue_up_inv:
  "queue_inv ex_queue_up" "heap_inv (MKZQ ex_queue_up)"
  "4 < length (MKZA ex_queue_up)" "MkzIsAlive (MKZA ex_queue_up) 4"
  by (simp_all add: ex_queue_up_def ex_queue_def ex_inv_defs)

lemma ex_queue_up_update: "MkzUpdate ex_queue_up 4 = Some (Inr ex_queue_up_after)"
  by (simp add: ex_queue_up_after_def ex_queue_up_def ex_queue_def ex_eval_defs)

lemma ex_heap3_inv: "queue_inv ex_heap3" "heap_inv (MKZQ ex_heap3)"
  by (simp_all add: ex_heap3_def ex_inv_defs)

lemma ex_dead_inv:
  "queue_inv ex_dead" "0 < length (MKZA ex_dead)" "MkzIsAlive (MKZA ex_dead) 0"
  "\<not> MkzIsAlive (MKZA ex_dead) 1"
  by (simp_all add: ex_dead_def ex_inv_defs)

lemma ex_queue_updateN:
  "MkzUpdateN ex_queue [0, 4] = Some (Inr ex_queue_after)"
  "MkzUpdateN ex_queue [4, 0] = Some (Inr ex_queue_after)"
  by (simp_all add: ex_queue_after_def ex_queue_def ex_eval_defs)

lemma ex_queue_parallel:
  "MkzUpdateN_parallel ex_queue [0, 4] = Some ex_queue_after"
  by (simp add: MkzUpdateN_parallel_def ex_queue_after_def ex_queue_def ex_eval_defs)

section \<open>The claims about the queue\<close>

text \<open>
  Claim C2. On a queue with the heap property and the bijection invariant, \<^verbatim>\<open>MkzUpdate\<close>
  of an alive column \<open>j\<close> returns; it has written the recomputed cost into the slot of
  \<open>j\<close> and sifted that slot in one direction only: with \<^verbatim>\<open>MkzUpQueue\<close>, and to a strictly
  smaller slot, when the new cost is less than the cost of the father, and with
  \<^verbatim>\<open>MkzDownQueue\<close>, to the same or a larger slot, otherwise. At exit the heap property holds
  over the slots 1 to \<open>Q ! 0\<close>, the bijection invariant holds, and the cost stored for \<open>j\<close>
  is the recomputed one.
\<close>

theorem MkzUpdate_restores_heap:
  assumes "queue_inv mat" "heap_inv (MKZQ mat)"
    and "j < length (MKZA mat)" "MkzIsAlive (MKZA mat) j"
  shows "\<exists>mat'. MkzUpdate mat j = Some (Inr mat') \<and>
     heap_inv (MKZQ mat') \<and> queue_wf (MKZQ mat') \<and> bijection_inv (MKZQ mat') (MKZA mat') \<and>
     stored_cost mat' j = nat (MkzCount mat j) \<and>
     (if MKZA mat ! j \<noteq> 1 \<and>
         nat (MkzCount mat j) < MkzGet (MKZQ mat) (MKZA mat ! j div 2) 1
      then (MKZQ mat', MKZA mat')
             = MkzUpQueue (MkzSet (MKZQ mat) (MKZA mat ! j) 1 (nat (MkzCount mat j)))
                 (MKZA mat) (MKZA mat ! j) \<and>
           MKZA mat' ! j < MKZA mat ! j
      else Some (MKZQ mat', MKZA mat')
             = MkzDownQueue (MkzSet (MKZQ mat) (MKZA mat ! j) 1 (nat (MkzCount mat j)))
                 (MKZA mat) (MKZA mat ! j) \<and>
           MKZA mat ! j \<le> MKZA mat' ! j)"
proof -
  have h: "True \<longrightarrow> heap_inv (MKZQ mat)" using assms(2) by simp
  from MkzUpdate_rule [OF assms(1) assms(3) assms(4) h]
  obtain Q' A' where r: "MkzUpdate mat j = Some (Inr (mat\<lparr>MKZQ := Q', MKZA := A'\<rparr>))"
    "queue_wf Q'" "bijection_inv Q' A'"
    "\<forall>c<length (MKZA mat). MkzIsAlive (MKZA mat) c \<longrightarrow>
        MkzGet Q' (A' ! c) 1
        = (if c = j then nat (MkzCount mat j) else MkzGet (MKZQ mat) (MKZA mat ! c) 1)"
    "True \<longrightarrow> heap_inv Q'"
    "if MKZA mat ! j \<noteq> 1 \<and>
         nat (MkzCount mat j) < MkzGet (MKZQ mat) (MKZA mat ! j div 2) 1
      then (Q', A') = MkzUpQueue (MkzSet (MKZQ mat) (MKZA mat ! j) 1 (nat (MkzCount mat j)))
                        (MKZA mat) (MKZA mat ! j) \<and> A' ! j < MKZA mat ! j
      else Some (Q', A') = MkzDownQueue (MkzSet (MKZQ mat) (MKZA mat ! j) 1 (nat (MkzCount mat j)))
                        (MKZA mat) (MKZA mat ! j) \<and> MKZA mat ! j \<le> A' ! j"
    by blast
  let ?mat' = "mat\<lparr>MKZQ := Q', MKZA := A'\<rparr>"
  have sc: "stored_cost ?mat' j = nat (MkzCount mat j)"
    using r(4) assms(3,4) by (simp add: stored_cost_def)
  show ?thesis
    by (rule exI [of _ ?mat']) (use r sc in simp)
qed

theorem MkzUpdate_restores_heap_witness:
  "queue_inv ex_queue \<and> heap_inv (MKZQ ex_queue) \<and> MkzIsAlive (MKZA ex_queue) 0 \<and>
   MkzUpdate ex_queue 0 = Some (Inr ex_queue_after) \<and>
   heap_inv (MKZQ ex_queue_after) \<and> bijection_inv (MKZQ ex_queue_after) (MKZA ex_queue_after) \<and>
   stored_cost ex_queue_after 0 = 4 \<and> MKZA ex_queue ! 0 = 1 \<and> MKZA ex_queue_after ! 0 = 4 \<and>
   queue_inv ex_queue_up \<and> heap_inv (MKZQ ex_queue_up) \<and> MkzIsAlive (MKZA ex_queue_up) 4 \<and>
   MkzUpdate ex_queue_up 4 = Some (Inr ex_queue_up_after) \<and>
   heap_inv (MKZQ ex_queue_up_after) \<and>
   bijection_inv (MKZQ ex_queue_up_after) (MKZA ex_queue_up_after) \<and>
   stored_cost ex_queue_up_after 4 = 0 \<and> MKZA ex_queue_up ! 4 = 5 \<and> MKZA ex_queue_up_after ! 4 = 1"
proof -
  have a: "heap_inv (MKZQ ex_queue_after) \<and>
      bijection_inv (MKZQ ex_queue_after) (MKZA ex_queue_after)"
    using MkzUpdate_restores_heap [OF ex_queue_inv] by (auto simp: ex_queue_update)
  have b: "heap_inv (MKZQ ex_queue_up_after) \<and>
      bijection_inv (MKZQ ex_queue_up_after) (MKZA ex_queue_up_after)"
    using MkzUpdate_restores_heap [OF ex_queue_up_inv] by (auto simp: ex_queue_up_update)
  have c: "stored_cost ex_queue_after 0 = 4" "MKZA ex_queue ! 0 = 1" "MKZA ex_queue_after ! 0 = 4"
    "stored_cost ex_queue_up_after 4 = 0" "MKZA ex_queue_up ! 4 = 5"
    "MKZA ex_queue_up_after ! 4 = 1"
    by (simp_all add: stored_cost_def ex_queue_after_def ex_queue_up_after_def ex_queue_up_def
        ex_queue_def MkzGet_def)
  show ?thesis
    using a b c ex_queue_inv ex_queue_up_inv ex_queue_update ex_queue_up_update by simp
qed

text \<open>
  Claim C3. The bijection invariant is preserved by every public operation: after
  \<^verbatim>\<open>MkzUpdate\<close> of an alive column, after \<^verbatim>\<open>MkzUpdateN\<close> of alive columns, and after the two
  operations on the weight of a column, every live slot \<open>k\<close> holds a column whose address is
  \<open>k\<close>, and the address of every alive column is a slot that holds it. The heap property is
  not needed for this.
\<close>

theorem bijection_preserved:
  assumes "queue_inv mat"
    and "\<forall>j \<in> set js. j < length (MKZA mat) \<and> MkzIsAlive (MKZA mat) j"
  shows "(\<exists>mat'. MkzUpdateN mat js = Some (Inr mat') \<and>
            queue_wf (MKZQ mat') \<and> bijection_inv (MKZQ mat') (MKZA mat')) \<and>
         (\<forall>j \<in> set js. \<exists>mat'. MkzUpdate mat j = Some (Inr mat') \<and>
            queue_wf (MKZQ mat') \<and> bijection_inv (MKZQ mat') (MKZA mat')) \<and>
         bijection_inv (MKZQ (fst (MkzIncrCol incrS mat c))) (MKZA (fst (MkzIncrCol incrS mat c))) \<and>
         bijection_inv (MKZQ (MkzDecreaseColWeight decrS mat c))
           (MKZA (MkzDecreaseColWeight decrS mat c))"
proof (intro conjI ballI)
  have h: "False \<longrightarrow> heap_inv (MKZQ mat)" by simp
  from MkzUpdateN_rule [OF assms h]
  obtain Q' A' where r: "MkzUpdateN mat js = Some (Inr (mat\<lparr>MKZQ := Q', MKZA := A'\<rparr>))"
    "queue_wf Q'" "bijection_inv Q' A'"
    by blast
  show "\<exists>mat'. MkzUpdateN mat js = Some (Inr mat') \<and>
            queue_wf (MKZQ mat') \<and> bijection_inv (MKZQ mat') (MKZA mat')"
    by (rule exI [of _ "mat\<lparr>MKZQ := Q', MKZA := A'\<rparr>"]) (use r in simp)
  {
    fix j assume "j \<in> set js"
    then have j: "j < length (MKZA mat)" "MkzIsAlive (MKZA mat) j" using assms(2) by simp_all
    from MkzUpdate_rule [OF assms(1) j h]
    obtain Q' A' where r: "MkzUpdate mat j = Some (Inr (mat\<lparr>MKZQ := Q', MKZA := A'\<rparr>))"
      "queue_wf Q'" "bijection_inv Q' A'"
      by blast
    show "\<exists>mat'. MkzUpdate mat j = Some (Inr mat') \<and>
            queue_wf (MKZQ mat') \<and> bijection_inv (MKZQ mat') (MKZA mat')"
      by (rule exI [of _ "mat\<lparr>MKZQ := Q', MKZA := A'\<rparr>"]) (use r in simp)
  }
  show "bijection_inv (MKZQ (fst (MkzIncrCol incrS mat c))) (MKZA (fst (MkzIncrCol incrS mat c)))"
    using assms(1) by (simp add: MkzIncrCol_def Let_def queue_inv_def)
  show "bijection_inv (MKZQ (MkzDecreaseColWeight decrS mat c))
           (MKZA (MkzDecreaseColWeight decrS mat c))"
    using assms(1) by (simp add: MkzDecreaseColWeight_def Let_def queue_inv_def)
qed

theorem bijection_preserved_witness:
  "queue_inv ex_queue \<and> MkzIsAlive (MKZA ex_queue) 4 \<and> MkzIsAlive (MKZA ex_queue) 0 \<and>
   MkzUpdateN ex_queue [4, 0] = Some (Inr ex_queue_after) \<and>
   bijection_inv (MKZQ ex_queue_after) (MKZA ex_queue_after)"
proof -
  have h: "\<forall>j \<in> set [4, 0]. j < length (MKZA ex_queue) \<and> MkzIsAlive (MKZA ex_queue) j"
    by (simp add: ex_queue_def MkzIsAlive_def MKZ_INF_def)
  have "\<exists>mat'. MkzUpdateN ex_queue [4, 0] = Some (Inr mat') \<and>
            queue_wf (MKZQ mat') \<and> bijection_inv (MKZQ mat') (MKZA mat')"
    by (rule conjunct1
        [OF bijection_preserved [OF ex_queue_inv(1) h, where incrS = "\<lambda>w. w + 1" and c = 0 and decrS = "\<lambda>w. w - 1"]])
  then have "bijection_inv (MKZQ ex_queue_after) (MKZA ex_queue_after)"
    unfolding ex_queue_updateN(2) by simp
  then show ?thesis using h ex_queue_inv ex_queue_updateN by simp
qed

text \<open>
  Claim C5. \<^verbatim>\<open>MkzClear\<close>, when verbose, is to log the largest cost ever seen at the root
  over the run, and labels what it prints \<^verbatim>\<open>Max Markowitz count\<close>. What it prints is the
  cost in the last live slot, slot \<open>Q ! 0\<close>, which is no maximum. On the run that updates
  column 0 of \<open>ex_queue\<close> the costs seen at the root are 0 and then 1, and the number
  printed is 5. On the heap \<open>ex_heap3\<close>, with no operation at all, the cost at the root is 1,
  a cost of 5 is queued for column 1, and the number printed is 2.
\<close>

theorem MkzClear_prints_last_slot:
  "MkzUpdate ex_queue 0 = Some (Inr ex_queue_after) \<and>
   max_root_cost_observed [ex_queue, ex_queue_after] = 1 \<and>
   MkzClear ex_queue_after True = Some 5 \<and>
   MkzClear ex_queue_after True \<noteq> Some (max_root_cost_observed [ex_queue, ex_queue_after]) \<and>
   max_root_cost_observed [ex_heap3] = 1 \<and> stored_cost ex_heap3 1 = 5 \<and>
   MkzClear ex_heap3 True = Some 2 \<and>
   MkzClear ex_heap3 True \<noteq> Some (max_root_cost_observed [ex_heap3])"
  using ex_queue_update
  by (simp add: max_root_cost_observed_def root_cost_def stored_cost_def MkzClear_def MkzGet_def
      ex_queue_after_def ex_queue_def ex_heap3_def)

text \<open>
  Claim C6. \<^verbatim>\<open>MkzUpdate\<close> is idempotent: on a queue with the heap property and the
  bijection invariant, a second update of the same alive column, with the matrix
  unchanged in between, returns the state that the first update returned.
\<close>

theorem MkzUpdate_idempotent:
  assumes "queue_inv mat" "heap_inv (MKZQ mat)"
    and "j < length (MKZA mat)" "MkzIsAlive (MKZA mat) j"
  shows "\<exists>mat'. MkzUpdate mat j = Some (Inr mat') \<and> MkzUpdate mat' j = Some (Inr mat')"
proof -
  have h: "True \<longrightarrow> heap_inv (MKZQ mat)" using assms(2) by simp
  from MkzUpdate_rule [OF assms(1) assms(3) assms(4) h]
  obtain Q' A' where r: "MkzUpdate mat j = Some (Inr (mat\<lparr>MKZQ := Q', MKZA := A'\<rparr>))"
    and inv: "queue_wf Q'" "bijection_inv Q' A'"
    and len: "length A' = length (MKZA mat)"
    and al: "\<forall>c<length (MKZA mat). MkzIsAlive A' c = MkzIsAlive (MKZA mat) c"
    and st: "\<forall>c<length (MKZA mat). MkzIsAlive (MKZA mat) c \<longrightarrow>
        MkzGet Q' (A' ! c) 1
        = (if c = j then nat (MkzCount mat j) else MkzGet (MKZQ mat) (MKZA mat ! c) 1)"
    and hp: "True \<longrightarrow> heap_inv Q'"
    by blast
  let ?mat' = "mat\<lparr>MKZQ := Q', MKZA := A'\<rparr>"
  let ?adr = "A' ! j" and ?mkz = "nat (MkzCount mat j)"
  have b: "bij_on (Q' ! 0) (length A') (qcol Q') (nth A')"
    using inv by (simp add: bijection_inv_iff)
  have alive': "?adr \<noteq> MKZ_INF" using al assms(3,4) by (simp add: MkzIsAlive_def)
  then have adr: "1 \<le> ?adr" "?adr \<le> Q' ! 0" "qcol Q' ?adr = j"
    using b assms(3) len unfolding bij_on_def by auto
  have a: "A' ! (MkzGet Q' ?adr 0) = ?adr" using adr by (simp add: qcol_def)
  have g: "MkzGet Q' ?adr 1 = ?mkz" using st assms(3,4) by simp
  have "MkzSet Q' ?adr 1 (MkzGet Q' ?adr 1) = Q'" by (simp add: MkzSet_def MkzGet_def)
  then have same: "MkzSet Q' ?adr 1 ?mkz = Q'" unfolding g .
  have hf: "heap_fn (Q' ! 0) (qcost Q')" using hp by (simp add: heap_inv_iff)
  have m: "MkzMoveUpOrDown Q' A' ?adr = Some (Q', A')"
    by (rule MkzMoveUpOrDown_heap_id [OF refl hf adr(1,2) a])
  have "MkzUpdate ?mat' j = Some (Inr ?mat')"
    using alive' by (simp add: MkzUpdate_def Let_def same [unfolded One_nat_def] m)
  then show ?thesis using r by blast
qed

theorem MkzUpdate_idempotent_witness:
  "queue_inv ex_queue \<and> heap_inv (MKZQ ex_queue) \<and> MkzIsAlive (MKZA ex_queue) 0 \<and>
   MkzUpdate ex_queue 0 = Some (Inr ex_queue_after) \<and>
   MkzUpdate ex_queue_after 0 = Some (Inr ex_queue_after)"
proof -
  have "MkzUpdate ex_queue_after 0 = Some (Inr ex_queue_after)"
    using MkzUpdate_idempotent [OF ex_queue_inv] unfolding ex_queue_update by simp
  then show ?thesis using ex_queue_inv ex_queue_update by simp
qed

text \<open>
  Claim C7. For a list of alive columns (distinct or not), the compiled \<^verbatim>\<open>MkzUpdateN\<close>
  returns the state given by the two-phase procedure of the spec, which is the version of
  the source under \<^verbatim>\<open>#if 0\<close>: all costs first, from the matrix alone, then the cost-write and
  the heap repair column by column in the order supplied.
\<close>

theorem MkzUpdateN_two_phase:
  assumes "queue_inv mat"
    and "\<forall>j \<in> set js. j < length (MKZA mat) \<and> MkzIsAlive (MKZA mat) j"
  shows "\<exists>mat'. MkzUpdateN mat js = Some (Inr mat') \<and> MkzUpdateN_parallel mat js = Some mat'"
proof -
  have h: "False \<longrightarrow> heap_inv (MKZQ mat)" by simp
  from MkzUpdateN_rule [OF assms h]
  obtain Q' A' where r: "MkzUpdateN mat js = Some (Inr (mat\<lparr>MKZQ := Q', MKZA := A'\<rparr>))"
    "MkzUpdateN_repair (MKZQ mat) (MKZA mat) (zip js (map (\<lambda>j. nat (MkzCount mat j)) js))
       = Some (Q', A')"
    by blast
  then have "MkzUpdateN_parallel mat js = Some (mat\<lparr>MKZQ := Q', MKZA := A'\<rparr>)"
    by (simp add: MkzUpdateN_parallel_def)
  then show ?thesis using r(1) by blast
qed

theorem MkzUpdateN_two_phase_witness:
  "queue_inv ex_queue \<and> distinct [0, 4 :: nat] \<and>
   MkzIsAlive (MKZA ex_queue) 0 \<and> MkzIsAlive (MKZA ex_queue) 4 \<and>
   MkzUpdateN ex_queue [0, 4] = Some (Inr ex_queue_after) \<and>
   MkzUpdateN_parallel ex_queue [0, 4] = Some ex_queue_after"
proof -
  have h: "\<forall>j \<in> set [0, 4]. j < length (MKZA ex_queue) \<and> MkzIsAlive (MKZA ex_queue) j"
    by (simp add: ex_queue_def MkzIsAlive_def MKZ_INF_def)
  have "MkzUpdateN_parallel ex_queue [0, 4] = Some ex_queue_after"
    using MkzUpdateN_two_phase [OF ex_queue_inv(1) h] unfolding ex_queue_updateN(1) by simp
  then show ?thesis using h ex_queue_inv ex_queue_updateN by simp
qed

text \<open>
  Claim C9. \<^verbatim>\<open>MkzUpdate\<close> of a dead column (\<open>A ! j = MKZ_INF\<close>) ends in the failed
  assertion and does not return. For an alive column the assertion does not fail, and on a
  queue with the bijection invariant the update returns a state.
\<close>

theorem MkzUpdate_assertion:
  "(\<not> MkzIsAlive (MKZA mat) j \<longrightarrow> MkzUpdate mat j = Some (Inl AssertionFailed)) \<and>
   (MkzIsAlive (MKZA mat) j \<longrightarrow> MkzUpdate mat j \<noteq> Some (Inl AssertionFailed)) \<and>
   (queue_inv mat \<and> j < length (MKZA mat) \<and> MkzIsAlive (MKZA mat) j \<longrightarrow>
      (\<exists>mat'. MkzUpdate mat j = Some (Inr mat')))"
proof (intro conjI impI)
  assume "\<not> MkzIsAlive (MKZA mat) j"
  then show "MkzUpdate mat j = Some (Inl AssertionFailed)"
    by (simp add: MkzUpdate_def MkzIsAlive_def)
next
  assume "MkzIsAlive (MKZA mat) j"
  then show "MkzUpdate mat j \<noteq> Some (Inl AssertionFailed)"
    by (simp add: MkzUpdate_def MkzIsAlive_def Let_def split: option.split)
next
  assume a: "queue_inv mat \<and> j < length (MKZA mat) \<and> MkzIsAlive (MKZA mat) j"
  have h: "False \<longrightarrow> heap_inv (MKZQ mat)" by simp
  from a MkzUpdate_rule [OF _ _ _ h, of j]
  show "\<exists>mat'. MkzUpdate mat j = Some (Inr mat')" by blast
qed

theorem MkzUpdate_assertion_witness:
  "\<not> MkzIsAlive (MKZA ex_dead) 1 \<and> MkzUpdate ex_dead 1 = Some (Inl AssertionFailed) \<and>
   queue_inv ex_dead \<and> 0 < length (MKZA ex_dead) \<and> MkzIsAlive (MKZA ex_dead) 0 \<and>
   MkzUpdate ex_dead 0 \<noteq> Some (Inl AssertionFailed) \<and>
   (\<exists>mat'. MkzUpdate ex_dead 0 = Some (Inr mat'))"
  using MkzUpdate_assertion [of ex_dead 1] MkzUpdate_assertion [of ex_dead 0] ex_dead_inv
  by blast

text \<open>
  Claim C10. \<^verbatim>\<open>MkzUpdate\<close> of an alive column changes the two queue arrays and nothing
  else: the weights, the row lists and the row lengths stay as they are. In the queue the
  number of items and the multiset of the columns stay the same, the cost stored for every
  other alive column stays the same, the cost stored for the updated column becomes the
  recomputed one, and the addresses follow the slots (the bijection invariant holds again,
  and the same columns are alive).
\<close>

theorem MkzUpdate_frame:
  assumes "queue_inv mat" "j < length (MKZA mat)" "MkzIsAlive (MKZA mat) j"
  shows "\<exists>mat'. MkzUpdate mat j = Some (Inr mat') \<and>
     mat' = mat\<lparr>MKZQ := MKZQ mat', MKZA := MKZA mat'\<rparr> \<and>
     wt mat' = wt mat \<and> R mat' = R mat \<and> matLengthRow mat' = matLengthRow mat \<and>
     length (MKZQ mat') = length (MKZQ mat) \<and> length (MKZA mat') = length (MKZA mat) \<and>
     MKZQ mat' ! 0 = MKZQ mat ! 0 \<and>
     mset (queue_columns (MKZQ mat')) = mset (queue_columns (MKZQ mat)) \<and>
     bijection_inv (MKZQ mat') (MKZA mat') \<and>
     (\<forall>c<length (MKZA mat). MkzIsAlive (MKZA mat') c = MkzIsAlive (MKZA mat) c) \<and>
     stored_cost mat' j = nat (MkzCount mat j) \<and>
     (\<forall>c<length (MKZA mat). MkzIsAlive (MKZA mat) c \<and> c \<noteq> j \<longrightarrow>
        stored_cost mat' c = stored_cost mat c)"
proof -
  have h: "False \<longrightarrow> heap_inv (MKZQ mat)" by simp
  from MkzUpdate_rule [OF assms h]
  obtain Q' A' where r: "MkzUpdate mat j = Some (Inr (mat\<lparr>MKZQ := Q', MKZA := A'\<rparr>))"
    and inv: "queue_wf Q'" "bijection_inv Q' A'"
    and len: "length Q' = length (MKZQ mat)" "length A' = length (MKZA mat)"
      "Q' ! 0 = MKZQ mat ! 0"
    and al: "\<forall>c<length (MKZA mat). MkzIsAlive A' c = MkzIsAlive (MKZA mat) c"
    and st: "\<forall>c<length (MKZA mat). MkzIsAlive (MKZA mat) c \<longrightarrow>
        MkzGet Q' (A' ! c) 1
        = (if c = j then nat (MkzCount mat j) else MkzGet (MKZQ mat) (MKZA mat ! c) 1)"
    by blast
  let ?mat' = "mat\<lparr>MKZQ := Q', MKZA := A'\<rparr>"
  have inv0: "queue_wf (MKZQ mat)" "bijection_inv (MKZQ mat) (MKZA mat)"
    using assms(1) by (simp_all add: queue_inv_def)
  have "set (queue_columns Q') = set (queue_columns (MKZQ mat))"
    unfolding queue_columns_alive(2) [OF inv] queue_columns_alive(2) [OF inv0]
    using al len(2) by auto
  then have ms: "mset (queue_columns Q') = mset (queue_columns (MKZQ mat))"
    using queue_columns_alive(1) [OF inv] queue_columns_alive(1) [OF inv0]
    by (simp add: set_eq_iff_mset_eq_distinct)
  have s1: "stored_cost ?mat' j = nat (MkzCount mat j)"
    using st assms(2,3) by (simp add: stored_cost_def)
  have s2: "\<forall>c<length (MKZA mat). MkzIsAlive (MKZA mat) c \<and> c \<noteq> j \<longrightarrow>
        stored_cost ?mat' c = stored_cost mat c"
    using st by (simp add: stored_cost_def)
  show ?thesis
    by (rule exI [of _ ?mat']) (use r inv len al ms s1 s2 in simp)
qed

theorem MkzUpdate_frame_witness:
  "queue_inv ex_queue \<and> MkzIsAlive (MKZA ex_queue) 0 \<and>
   MkzUpdate ex_queue 0 = Some (Inr ex_queue_after) \<and>
   wt ex_queue_after = wt ex_queue \<and> R ex_queue_after = R ex_queue \<and>
   MKZQ ex_queue_after ! 0 = MKZQ ex_queue ! 0 \<and>
   queue_columns (MKZQ ex_queue) = [0, 1, 2, 3, 4] \<and>
   queue_columns (MKZQ ex_queue_after) = [1, 3, 2, 0, 4] \<and>
   mset (queue_columns (MKZQ ex_queue_after)) = mset (queue_columns (MKZQ ex_queue)) \<and>
   stored_cost ex_queue 0 = 0 \<and> stored_cost ex_queue_after 0 = 4 \<and>
   stored_cost ex_queue_after 3 = stored_cost ex_queue 3"
proof -
  have "mset (queue_columns (MKZQ ex_queue_after)) = mset (queue_columns (MKZQ ex_queue)) \<and>
      stored_cost ex_queue_after 0 = nat (MkzCount ex_queue 0)"
    using MkzUpdate_frame [OF ex_queue_inv(1,3,4)] unfolding ex_queue_update by simp
  moreover have "queue_columns (MKZQ ex_queue) = [0, 1, 2, 3, 4]"
    "queue_columns (MKZQ ex_queue_after) = [1, 3, 2, 0, 4]"
    "stored_cost ex_queue 0 = 0" "stored_cost ex_queue_after 0 = 4"
    "stored_cost ex_queue_after 3 = stored_cost ex_queue 3"
    "wt ex_queue_after = wt ex_queue" "R ex_queue_after = R ex_queue"
    "MKZQ ex_queue_after ! 0 = MKZQ ex_queue ! 0"
    by (simp_all add: queue_columns_def stored_cost_def MkzGet_def ex_queue_after_def
        ex_queue_def upt_rec)
  ultimately show ?thesis using ex_queue_inv ex_queue_update by simp
qed

end
